theory Spec2Isabelle
  imports Main "HOL-Library.Word"
begin

unbundle bit_operations_syntax

section \<open>Data model (termbox.h, termbox.c)\<close>

text \<open>
  The C integer types are fixed-width words: \<open>uint32_t\<close> and \<open>unsigned int\<close> are
  \<open>32 word\<close>, \<open>uint16_t\<close> is \<open>16 word\<close>, a \<open>char\<close> of output is \<open>8 word\<close>.
  Word arithmetic wraps around as the unsigned C arithmetic does.
\<close>

type_synonym u8 = "8 word"
type_synonym u16 = "16 word"
type_synonym u32 = "32 word"

text \<open>\<open>struct tb_cell\<close>: 4 + 2 + 2 bytes, no padding, so \<open>memcmp\<close> of two cells is
  \<open>0\<close> exactly when the three fields agree, and \<open>memcpy\<close> of a cell is assignment.\<close>

record tb_cell =
  ch :: u32
  fg :: u16
  bg :: u16

definition TB_BLACK :: u16 where "TB_BLACK = 0x00"
definition TB_WHITE :: u16 where "TB_WHITE = 0x07"
definition TB_BOLD :: u16 where "TB_BOLD = 0x10"
definition TB_UNDERLINE :: u16 where "TB_UNDERLINE = 0x20"
definition TB_BLINK :: u16 where "TB_BLINK = 0x40"

section \<open>UTF-8 encoder (\<open>utf8_unicode_to_char\<close>)\<close>

text \<open>The \<open>if\<close> chain choosing the lead-byte marker \<open>first\<close> and the length \<open>len\<close>.\<close>

definition utf8_first_len :: "u32 \<Rightarrow> u32 \<times> nat" where
  "utf8_first_len c =
     (if c < 0x80 then (0, 1)
      else if c < 0x800 then (0xc0, 2)
      else if c < 0x10000 then (0xe0, 3)
      else if c < 0x200000 then (0xf0, 4)
      else if c < 0x4000000 then (0xf8, 5)
      else (0xfc, 6))"

text \<open>
  The loop \<open>for (i = len - 1; i > 0; --i) { out[i] = (c & 0x3f) | 0x80; c >>= 6; }\<close>:
  the counter runs down, so each byte is put in front of those already written.
  The result is the remaining \<open>c\<close> and \<open>out[1 .. len-1]\<close>.
\<close>

fun utf8_cont_bytes :: "nat \<Rightarrow> u32 \<Rightarrow> u8 list \<Rightarrow> u32 \<times> u8 list" where
  "utf8_cont_bytes 0 c acc = (c, acc)"
| "utf8_cont_bytes (Suc i) c acc =
     utf8_cont_bytes i (drop_bit 6 c) (ucast ((c AND 0x3f) OR 0x80) # acc)"

text \<open>The function returns \<open>len\<close> and fills \<open>out[0 .. len-1]\<close>; the model returns
  these bytes, whose number is \<open>len\<close>. The store into a \<open>char\<close> keeps the low 8 bits.\<close>

definition utf8_unicode_to_char :: "u32 \<Rightarrow> u8 list" where
  "utf8_unicode_to_char c =
     (case utf8_first_len c of (first, len) \<Rightarrow>
        (case utf8_cont_bytes (len - 1) c [] of (c', rest) \<Rightarrow>
           ucast (c' OR first) # rest))"

section \<open>Reference UTF-8 decoder\<close>

text \<open>
  A decoder written from the classical UTF-8 rules (sequences of 1 to 6 bytes), to
  compare the encoder with: the lead byte fixes the length by its leading bits (\<open>0xxxxxxx\<close>,
  \<open>110xxxxx\<close>, \<open>1110xxxx\<close>, \<open>11110xxx\<close>, \<open>111110xx\<close>, \<open>1111110x\<close>) and carries
  the high bits of the scalar, every following byte must have the form \<open>10xxxxxx\<close> and carries six bits.
\<close>

definition utf8_ref_length :: "u8 \<Rightarrow> nat option" where
  "utf8_ref_length b =
     (if b AND 0x80 = 0x00 then Some 1
      else if b AND 0xe0 = 0xc0 then Some 2
      else if b AND 0xf0 = 0xe0 then Some 3
      else if b AND 0xf8 = 0xf0 then Some 4
      else if b AND 0xfc = 0xf8 then Some 5
      else if b AND 0xfe = 0xfc then Some 6
      else None)"

definition utf8_ref_lead_mask :: "nat \<Rightarrow> u8" where
  "utf8_ref_lead_mask n =
     (if n = 1 then 0x7f else if n = 2 then 0x1f else if n = 3 then 0x0f
      else if n = 4 then 0x07 else if n = 5 then 0x03 else 0x01)"

fun utf8_ref_cont :: "u32 \<Rightarrow> u8 list \<Rightarrow> u32 option" where
  "utf8_ref_cont acc [] = Some acc"
| "utf8_ref_cont acc (b # bs) =
     (if b AND 0xc0 = 0x80
      then utf8_ref_cont (push_bit 6 acc OR ucast (b AND 0x3f)) bs
      else None)"

definition utf8_ref_decode :: "u8 list \<Rightarrow> u32 option" where
  "utf8_ref_decode bs =
     (case bs of
        [] \<Rightarrow> None
      | b0 # rest \<Rightarrow>
          (case utf8_ref_length b0 of
             None \<Rightarrow> None
           | Some n \<Rightarrow>
               if length rest = n - 1
               then utf8_ref_cont (ucast (b0 AND utf8_ref_lead_mask n)) rest
               else None))"

section \<open>Faults\<close>

text \<open>
  Two ways in which the C code stops being defined are kept as values: the failed
  \<open>assert(buf->cells)\<close> after a \<open>malloc\<close> that returned \<open>NULL\<close>, and an access outside
  an allocated block (or the overflow of a signed counter), which C leaves undefined.
\<close>

datatype error = AssertFailed | UndefinedBehaviour

text \<open>A \<open>for\<close> loop over the given indices whose body may fault; the first fault ends it.\<close>

fun for_each :: "nat list \<Rightarrow> (nat \<Rightarrow> 's \<Rightarrow> error + 's) \<Rightarrow> 's \<Rightarrow> error + 's" where
  "for_each [] body s = Inr s"
| "for_each (i # ixs) body s =
     (case body i s of Inl e \<Rightarrow> Inl e | Inr s' \<Rightarrow> for_each ixs body s')"

section \<open>Cell buffers\<close>

text \<open>\<open>struct cellbuf\<close>; \<open>cells\<close> is the block the pointer refers to.\<close>

record cellbuf =
  width :: u32
  height :: u32
  cells :: "tb_cell list"

text \<open>The macro \<open>CELL(buf, x, y)\<close> is \<open>cells[y * width + x]\<close>; the index is computed
  in \<open>unsigned int\<close>, so it wraps at \<open>2 ^ 32\<close>.\<close>

definition CELL :: "cellbuf \<Rightarrow> u32 \<Rightarrow> u32 \<Rightarrow> nat" where
  "CELL buf x y = unat (y * width buf + x)"

definition cell_read :: "tb_cell list \<Rightarrow> nat \<Rightarrow> error + tb_cell" where
  "cell_read cs i = (if i < length cs then Inr (cs ! i) else Inl UndefinedBehaviour)"

definition cell_write :: "tb_cell list \<Rightarrow> nat \<Rightarrow> tb_cell \<Rightarrow> error + tb_cell list" where
  "cell_write cs i c = (if i < length cs then Inr (cs[i := c]) else Inl UndefinedBehaviour)"

text \<open>
  \<open>memcpy(dst + d, src + s, sizeof(struct tb_cell) * n)\<close> between two distinct blocks.
  A copy of no bytes touches nothing.
\<close>

definition memcpy_cells ::
  "tb_cell list \<Rightarrow> nat \<Rightarrow> tb_cell list \<Rightarrow> nat \<Rightarrow> nat \<Rightarrow> error + tb_cell list" where
  "memcpy_cells dst d src s n =
     (if n = 0 then Inr dst
      else if d + n \<le> length dst \<and> s + n \<le> length src
      then Inr (take d dst @ take n (drop s src) @ drop (d + n) dst)
      else Inl UndefinedBehaviour)"

text \<open>
  \<open>cellbuf_init\<close>: \<open>malloc(sizeof(struct tb_cell) * width * height)\<close>. The size is
  computed in \<open>size_t\<close> (64 bits), the cell has 8 bytes. What \<open>malloc\<close> does is given
  from outside: \<open>None\<close> when it returns \<open>NULL\<close> (the \<open>assert\<close> then fails), otherwise
  the arbitrary contents of the fresh block.
\<close>

definition malloc_cells :: "u32 \<Rightarrow> u32 \<Rightarrow> nat" where
  "malloc_cells w h = ((8 * unat w * unat h) mod 2 ^ 64) div 8"

definition cellbuf_init ::
  "(nat \<Rightarrow> tb_cell) option \<Rightarrow> cellbuf \<Rightarrow> u32 \<Rightarrow> u32 \<Rightarrow> error + cellbuf" where
  "cellbuf_init m buf w h =
     (case m of
        None \<Rightarrow> Inl AssertFailed
      | Some junk \<Rightarrow>
          Inr (buf\<lparr>cells := map junk [0..<malloc_cells w h], width := w, height := h\<rparr>))"

text \<open>\<open>cellbuf_clear\<close>: \<open>ncells\<close> is an \<open>unsigned int\<close> product.\<close>

definition clear_cell :: "nat \<Rightarrow> tb_cell list \<Rightarrow> error + tb_cell list" where
  "clear_cell i cs =
     (if i < length cs
      then Inr (cs[i := (cs ! i)\<lparr>ch := 0x20, fg := TB_WHITE, bg := TB_BLACK\<rparr>])
      else Inl UndefinedBehaviour)"

definition cellbuf_clear :: "cellbuf \<Rightarrow> error + cellbuf" where
  "cellbuf_clear buf =
     (let ncells = width buf * height buf in
      case for_each [0..<unat ncells] clear_cell (cells buf) of
        Inl e \<Rightarrow> Inl e
      | Inr cs \<Rightarrow> Inr (buf\<lparr>cells := cs\<rparr>))"

text \<open>\<open>cellbuf_resize\<close>. The row offsets \<open>i * oldw\<close> and \<open>i * width\<close> are
  \<open>unsigned int\<close> products.\<close>

definition resize_row ::
  "tb_cell list \<Rightarrow> u32 \<Rightarrow> u32 \<Rightarrow> u32 \<Rightarrow> nat \<Rightarrow> tb_cell list \<Rightarrow> error + tb_cell list" where
  "resize_row oldcells oldw w minw i cs =
     memcpy_cells cs (unat (of_nat i * w)) oldcells (unat (of_nat i * oldw)) (unat minw)"

definition cellbuf_resize ::
  "(nat \<Rightarrow> tb_cell) option \<Rightarrow> cellbuf \<Rightarrow> u32 \<Rightarrow> u32 \<Rightarrow> error + cellbuf" where
  "cellbuf_resize m buf w h =
     (if width buf = w \<and> height buf = h then Inr buf
      else
        let oldw = width buf; oldh = height buf; oldcells = cells buf in
        case cellbuf_init m buf w h of
          Inl e \<Rightarrow> Inl e
        | Inr b1 \<Rightarrow>
            (case cellbuf_clear b1 of
               Inl e \<Rightarrow> Inl e
             | Inr b2 \<Rightarrow>
                 let minw = (if w < oldw then w else oldw);
                     minh = (if h < oldh then h else oldh)
                 in (case for_each [0..<unat minh] (resize_row oldcells oldw w minw) (cells b2) of
                       Inl e \<Rightarrow> Inl e
                     | Inr cs \<Rightarrow> Inr (b2\<lparr>cells := cs\<rparr>))))"

text \<open>\<open>cellbuf_free\<close>: the block is released; nothing of it can be read any more.\<close>

definition cellbuf_free :: "cellbuf \<Rightarrow> cellbuf" where
  "cellbuf_free buf = buf\<lparr>cells := []\<rparr>"

section \<open>The terminal and the session state\<close>

text \<open>
  \<open>term.h\<close> is not among the sources. Of its table \<open>funcs\<close> only the index names that
  \<open>termbox.c\<close> uses are known, so the model does not produce the bytes of an escape
  string: it records each call made on the terminal, with the index of the string.
\<close>

datatype cap =
    T_ENTER_CA | T_EXIT_CA | T_SHOW_CURSOR | T_HIDE_CURSOR | T_CLEAR_SCREEN
  | T_SGR | T_SGR0 | T_BOLD | T_BLINK | T_MOVE_CURSOR | T_ENTER_KEYPAD | T_EXIT_KEYPAD

text \<open>\<open>struct termios\<close>, the fields that \<open>tb_init\<close> sets.\<close>

record termios =
  c_iflag :: u32
  c_oflag :: u32
  c_cflag :: u32
  c_lflag :: u32
  c_cc_VMIN :: u8
  c_cc_VTIME :: u8

text \<open>\<open>CS8\<close> of \<open><termios.h>\<close> (its value on Linux).\<close>

definition CS8 :: u32 where "CS8 = 0x30"

text \<open>
  The calls on the terminal, in the order made: \<open>fputs(funcs[c], out)\<close>,
  \<open>fprintf(out, funcs[c], a, b)\<close>, \<open>fputs(buf, out)\<close> with the bytes of \<open>buf\<close> before
  its first NUL, \<open>fflush(out)\<close>, \<open>tcsetattr(out_fileno, TCSAFLUSH, t)\<close>,
  \<open>signal(SIGWINCH, sigwinch_handler)\<close>, \<open>fclose(out)\<close> and \<open>fclose(in)\<close>.
\<close>

datatype tty_call =
    Fputs cap
  | Fprintf cap u32 u32
  | Fputs_buf "u8 list"
  | Fflush
  | Tcsetattr termios
  | Signal_SIGWINCH
  | Fclose_out
  | Fclose_in

text \<open>\<open>struct tb_key_event\<close> (the field \<open>mod\<close> is written \<open>ev_mod\<close>).\<close>

record tb_key_event =
  ev_ch :: u32
  ev_key :: u16
  ev_mod :: u16

text \<open>A \<open>FILE *\<close> is the identity of a stream, or \<open>None\<close> for \<open>NULL\<close>.\<close>

type_synonym FILE = nat

text \<open>
  The globals of \<open>termbox.c\<close>, with the \<open>static\<close> locals \<open>lastfg\<close>, \<open>lastbg\<close> of
  \<open>send_attr\<close> and \<open>lastx\<close>, \<open>lasty\<close> of \<open>send_char\<close>, and the calls made on the
  terminal so far. \<open>out\<close> and \<open>in\<close> are written \<open>out_file\<close> and \<open>in_file\<close>. The type
  \<open>'rb\<close> is \<open>struct ringbuffer\<close>, declared in \<open>term.h\<close>. An \<open>int\<close> that only holds a
  code, a descriptor or a flag is an \<open>int\<close>; \<open>lastx\<close> and \<open>lasty\<close> are \<open>int\<close>s assigned
  from and compared with \<open>unsigned int\<close>s, and are kept as their 32-bit patterns.
\<close>

record 'rb session =
  orig_tios :: termios
  back_buffer :: cellbuf
  front_buffer :: cellbuf
  termw :: u32
  termh :: u32
  inputmode :: int
  inbuf :: 'rb
  out_file :: "FILE option"
  in_file :: "FILE option"
  out_fileno :: int
  in_fileno :: int
  sigwinch_r :: int
  lastfg :: u16
  lastbg :: u16
  lastx :: u32
  lasty :: u32
  tty_log :: "tty_call list"

definition LAST_ATTR_INIT :: u16 where "LAST_ATTR_INIT = 0xFFFF"
definition LAST_COORD_INIT :: u32 where "LAST_COORD_INIT = 0xFFFFFFFE"

definition TB_INPUT_ESC :: int where "TB_INPUT_ESC = 1"
definition TB_INPUT_ALT :: int where "TB_INPUT_ALT = 2"
definition TB_EUNSUPPORTED_TERMINAL :: int where "TB_EUNSUPPORTED_TERMINAL = - 1"
definition TB_EFAILED_TO_OPEN_TTY :: int where "TB_EFAILED_TO_OPEN_TTY = - 2"

text \<open>
  What the operating system and the C library answer during one call of the library:
  the two \<open>fopen("/dev/tty", ...)\<close>, \<open>fileno\<close>, \<open>init_term()\<close> of \<open>term.h\<close>,
  \<open>tcgetattr\<close>, the \<open>ws_col\<close> and \<open>ws_row\<close> left in \<open>sz\<close> by the \<open>TIOCGWINSZ\<close> ioctl
  (both 0 when it fails, by the \<open>memset\<close>), and the \<open>malloc\<close> made for each buffer.
\<close>

record sys =
  fopen_w :: "FILE option"
  fopen_r :: "FILE option"
  fileno :: "FILE \<Rightarrow> int"
  init_term :: int
  tcgetattr :: termios
  ioctl_winsize :: "u16 \<times> u16"
  malloc_back :: "(nat \<Rightarrow> tb_cell) option"
  malloc_front :: "(nat \<Rightarrow> tb_cell) option"

text \<open>
  The functions of \<open>term.h\<close> that \<open>termbox.c\<close> calls on the ring buffer, taken as
  parameters. \<open>extract_event(event, &inbuf, inputmode)\<close> returns its code and may write
  the event and the ring; \<open>ringbuffer_free_space\<close> only reports a number.
\<close>

record 'rb term_h =
  extract_event :: "tb_key_event \<Rightarrow> 'rb \<Rightarrow> int \<Rightarrow> int \<times> tb_key_event \<times> 'rb"
  ringbuffer_free_space :: "'rb \<Rightarrow> int"
  ringbuffer_push :: "'rb \<Rightarrow> u8 list \<Rightarrow> 'rb"
  init_ringbuffer :: "nat \<Rightarrow> 'rb"
  free_ringbuffer :: "'rb \<Rightarrow> 'rb"

section \<open>Renderer\<close>

definition emit :: "tty_call list \<Rightarrow> 'rb session \<Rightarrow> 'rb session" where
  "emit calls s = s\<lparr>tty_log := tty_log s @ calls\<rparr>"

text \<open>\<open>send_attr\<close>. The arguments of \<open>fprintf\<close> are \<open>fg & 0x0F\<close> and \<open>bg & 0x0F\<close>.\<close>

definition send_attr :: "u16 \<Rightarrow> u16 \<Rightarrow> 'rb session \<Rightarrow> 'rb session" where
  "send_attr fg' bg' s =
     (if fg' \<noteq> lastfg s \<or> bg' \<noteq> lastbg s then
        (emit ([Fputs T_SGR0, Fprintf T_SGR (ucast (fg' AND 0x0F)) (ucast (bg' AND 0x0F))]
               @ (if fg' AND TB_BOLD \<noteq> 0 then [Fputs T_BOLD] else [])
               @ (if bg' AND TB_BOLD \<noteq> 0 then [Fputs T_BLINK] else [])) s)
          \<lparr>lastfg := fg', lastbg := bg'\<rparr>
      else s)"

text \<open>\<open>send_char\<close>: \<open>buf\<close> holds the encoding and a NUL after it; \<open>fputs\<close> stops at the
  first NUL of \<open>buf\<close>.\<close>

definition send_char :: "u32 \<Rightarrow> u32 \<Rightarrow> u32 \<Rightarrow> 'rb session \<Rightarrow> 'rb session" where
  "send_char x y c s =
     (let buf = utf8_unicode_to_char c @ [0];
          s1 = (if x - 1 \<noteq> lastx s \<or> y \<noteq> lasty s
                then emit [Fprintf T_MOVE_CURSOR (y + 1) (x + 1)] s else s);
          s2 = s1\<lparr>lastx := x, lasty := y\<rparr>
      in emit [Fputs_buf (takeWhile (\<lambda>b. b \<noteq> 0) buf)] s2)"

definition send_clear :: "'rb session \<Rightarrow> 'rb session" where
  "send_clear s = emit [Fputs T_CLEAR_SCREEN, Fflush] (send_attr TB_WHITE TB_BLACK s)"

definition sigwinch_handler :: "'rb session \<Rightarrow> 'rb session" where
  "sigwinch_handler s = s\<lparr>sigwinch_r := 1\<rparr>"

definition update_term_size :: "sys \<Rightarrow> 'rb session \<Rightarrow> 'rb session" where
  "update_term_size sy s =
     (case ioctl_winsize sy of (ws_col, ws_row) \<Rightarrow>
        s\<lparr>termw := ucast ws_col, termh := ucast ws_row\<rparr>)"

definition check_sigwinch :: "sys \<Rightarrow> 'rb session \<Rightarrow> error + 'rb session" where
  "check_sigwinch sy s =
     (if sigwinch_r s \<noteq> 0 then
        let s1 = update_term_size sy s in
        case cellbuf_resize (malloc_back sy) (back_buffer s1) (termw s1) (termh s1) of
          Inl e \<Rightarrow> Inl e
        | Inr bb \<Rightarrow>
            (case cellbuf_resize (malloc_front sy) (front_buffer s1) (termw s1) (termh s1) of
               Inl e \<Rightarrow> Inl e
             | Inr fb \<Rightarrow>
                 (case cellbuf_clear fb of
                    Inl e \<Rightarrow> Inl e
                  | Inr fb' \<Rightarrow>
                      Inr ((send_clear (s1\<lparr>back_buffer := bb, front_buffer := fb'\<rparr>))
                             \<lparr>sigwinch_r := 0\<rparr>)))
      else Inr s)"

text \<open>The body of the inner loop of \<open>tb_present\<close>, for one position.\<close>

definition present_cell :: "nat \<Rightarrow> nat \<Rightarrow> 'rb session \<Rightarrow> error + 'rb session" where
  "present_cell y x s =
     (let bi = CELL (back_buffer s) (of_nat x) (of_nat y);
          fi = CELL (front_buffer s) (of_nat x) (of_nat y)
      in case cell_read (cells (back_buffer s)) bi of
           Inl e \<Rightarrow> Inl e
         | Inr back \<Rightarrow>
             (case cell_read (cells (front_buffer s)) fi of
                Inl e \<Rightarrow> Inl e
              | Inr front \<Rightarrow>
                  if back = front then Inr s
                  else
                    let s1 = send_attr (fg back) (bg back) s;
                        s2 = send_char (of_nat x) (of_nat y) (ch back) s1
                    in Inr (s2\<lparr>front_buffer :=
                              (front_buffer s2)\<lparr>cells := (cells (front_buffer s2))[fi := back]\<rparr>\<rparr>)))"

definition present_row :: "nat \<Rightarrow> 'rb session \<Rightarrow> error + 'rb session" where
  "present_row y s = for_each [0..<unat (width (front_buffer s))] (present_cell y) s"

definition tb_present :: "sys \<Rightarrow> 'rb session \<Rightarrow> error + 'rb session" where
  "tb_present sy s =
     (case check_sigwinch sy s of
        Inl e \<Rightarrow> Inl e
      | Inr s1 \<Rightarrow>
          (case for_each [0..<unat (height (front_buffer s1))] present_row s1 of
             Inl e \<Rightarrow> Inl e
           | Inr s2 \<Rightarrow> Inr (emit [Fflush] s2)))"

section \<open>Writes to the back buffer\<close>

definition tb_put_cell :: "u32 \<Rightarrow> u32 \<Rightarrow> tb_cell \<Rightarrow> 'rb session \<Rightarrow> error + 'rb session" where
  "tb_put_cell x y cell s =
     (if x \<ge> width (back_buffer s) \<or> y \<ge> height (back_buffer s) then Inr s
      else
        case cell_write (cells (back_buffer s)) (CELL (back_buffer s) x y) cell of
          Inl e \<Rightarrow> Inl e
        | Inr cs \<Rightarrow> Inr (s\<lparr>back_buffer := (back_buffer s)\<lparr>cells := cs\<rparr>\<rparr>))"

definition tb_change_cell ::
  "u32 \<Rightarrow> u32 \<Rightarrow> u32 \<Rightarrow> u16 \<Rightarrow> u16 \<Rightarrow> 'rb session \<Rightarrow> error + 'rb session" where
  "tb_change_cell x y ch' fg' bg' s = tb_put_cell x y \<lparr>ch = ch', fg = fg', bg = bg'\<rparr> s"

text \<open>
  The loop of \<open>tb_blit\<close>: \<open>dst\<close> and \<open>cells\<close> are pointers, advanced by \<open>back_buffer.width\<close>
  and by \<open>w\<close> after each row; the model keeps the offset of \<open>dst\<close> in the block and of
  \<open>cells\<close> in the caller's array.
\<close>

fun blit_rows ::
  "nat \<Rightarrow> nat \<Rightarrow> nat \<Rightarrow> nat \<Rightarrow> nat \<Rightarrow> tb_cell list \<Rightarrow> tb_cell list \<Rightarrow> error + tb_cell list" where
  "blit_rows 0 dst src stride w cells' mem = Inr mem"
| "blit_rows (Suc n) dst src stride w cells' mem =
     (case memcpy_cells mem dst cells' src w of
        Inl e \<Rightarrow> Inl e
      | Inr mem' \<Rightarrow> blit_rows n (dst + stride) (src + w) stride w cells' mem')"

text \<open>
  \<open>tb_blit\<close>. The sums \<open>x + w\<close> and \<open>y + h\<close> are \<open>unsigned int\<close> sums. The counter \<open>sy\<close>
  is an \<open>int\<close> compared with the \<open>unsigned int\<close> \<open>h\<close>: with \<open>h\<close> of \<open>2 ^ 31\<close> or more it
  would overflow.
\<close>

definition tb_blit ::
  "u32 \<Rightarrow> u32 \<Rightarrow> u32 \<Rightarrow> u32 \<Rightarrow> tb_cell list \<Rightarrow> 'rb session \<Rightarrow> error + 'rb session" where
  "tb_blit x y w h cells' s =
     (if x + w \<ge> width (back_buffer s) \<or> y + h \<ge> height (back_buffer s) then Inr s
      else if unat h \<ge> 2 ^ 31 then Inl UndefinedBehaviour
      else
        case blit_rows (unat h) (CELL (back_buffer s) x y) 0
               (unat (width (back_buffer s))) (unat w) cells' (cells (back_buffer s)) of
          Inl e \<Rightarrow> Inl e
        | Inr cs \<Rightarrow> Inr (s\<lparr>back_buffer := (back_buffer s)\<lparr>cells := cs\<rparr>\<rparr>))"

definition tb_width :: "'rb session \<Rightarrow> u32" where
  "tb_width s = termw s"

definition tb_height :: "'rb session \<Rightarrow> u32" where
  "tb_height s = termh s"

definition tb_clear :: "sys \<Rightarrow> 'rb session \<Rightarrow> error + 'rb session" where
  "tb_clear sy s =
     (case check_sigwinch sy s of
        Inl e \<Rightarrow> Inl e
      | Inr s1 \<Rightarrow>
          (case cellbuf_clear (back_buffer s1) of
             Inl e \<Rightarrow> Inl e
           | Inr bb \<Rightarrow> Inr (s1\<lparr>back_buffer := bb\<rparr>)))"

definition tb_select_input_mode :: "int \<Rightarrow> 'rb session \<Rightarrow> int \<times> 'rb session" where
  "tb_select_input_mode mode s =
     (let s' = (if mode \<noteq> 0 then s\<lparr>inputmode := mode\<rparr> else s) in (inputmode s', s'))"

section \<open>Session: \<open>tb_init\<close> and \<open>tb_shutdown\<close>\<close>

text \<open>
  The raw mode of \<open>tb_init\<close>: \<open>tios\<close> is zeroed, clearing bits of a zero field leaves
  zero, then \<open>c_cflag |= CS8\<close> and \<open>VMIN = VTIME = 0\<close>.
\<close>

definition raw_tios :: termios where
  "raw_tios = \<lparr>c_iflag = 0, c_oflag = 0, c_cflag = 0 OR CS8, c_lflag = 0,
               c_cc_VMIN = 0, c_cc_VTIME = 0\<rparr>"

text \<open>The part of \<open>tb_init\<close> after \<open>init_term()\<close> has succeeded.\<close>

definition tb_init_session :: "'rb term_h \<Rightarrow> sys \<Rightarrow> 'rb session \<Rightarrow> error + 'rb session" where
  "tb_init_session T sy s =
     (let s1 = emit [Signal_SIGWINCH] s;
          s2 = s1\<lparr>orig_tios := tcgetattr sy\<rparr>;
          s3 = emit [Tcsetattr raw_tios, Fputs T_ENTER_CA, Fputs T_ENTER_KEYPAD,
                     Fputs T_HIDE_CURSOR, Fputs T_CLEAR_SCREEN, Fflush] s2;
          s4 = update_term_size sy s3
      in case cellbuf_init (malloc_back sy) (back_buffer s4) (termw s4) (termh s4) of
           Inl e \<Rightarrow> Inl e
         | Inr bb \<Rightarrow>
             (case cellbuf_init (malloc_front sy) (front_buffer s4) (termw s4) (termh s4) of
                Inl e \<Rightarrow> Inl e
              | Inr fb \<Rightarrow>
                  (case cellbuf_clear bb of
                     Inl e \<Rightarrow> Inl e
                   | Inr bb' \<Rightarrow>
                       (case cellbuf_clear fb of
                          Inl e \<Rightarrow> Inl e
                        | Inr fb' \<Rightarrow>
                            Inr (s4\<lparr>back_buffer := bb', front_buffer := fb',
                                    inbuf := init_ringbuffer T 4096\<rparr>)))))"

text \<open>\<open>tb_init\<close>: the return code and the globals after the call.\<close>

definition tb_init :: "'rb term_h \<Rightarrow> sys \<Rightarrow> 'rb session \<Rightarrow> error + (int \<times> 'rb session)" where
  "tb_init T sy s =
     (let s1 = s\<lparr>out_file := fopen_w sy, in_file := fopen_r sy\<rparr> in
      case (out_file s1, in_file s1) of
        (Some fo, Some fi) \<Rightarrow>
          (let s2 = s1\<lparr>out_fileno := fileno sy fo, in_fileno := fileno sy fi\<rparr> in
           if init_term sy < 0 then Inr (TB_EUNSUPPORTED_TERMINAL, s2)
           else
             case tb_init_session T sy s2 of
               Inl e \<Rightarrow> Inl e
             | Inr s3 \<Rightarrow> Inr (0, s3))
      | _ \<Rightarrow> Inr (TB_EFAILED_TO_OPEN_TTY, s1))"

definition tb_shutdown :: "'rb term_h \<Rightarrow> 'rb session \<Rightarrow> 'rb session" where
  "tb_shutdown T s =
     (let s1 = emit [Fputs T_SHOW_CURSOR, Fputs T_SGR0, Fputs T_CLEAR_SCREEN,
                     Fputs T_EXIT_CA, Fputs T_EXIT_KEYPAD, Fflush,
                     Tcsetattr (orig_tios s), Fclose_out, Fclose_in] s
      in s1\<lparr>back_buffer := cellbuf_free (back_buffer s1),
             front_buffer := cellbuf_free (front_buffer s1),
             inbuf := free_ringbuffer T (inbuf s1)\<rparr>)"

section \<open>Event loop\<close>

text \<open>
  One round of the loop of \<open>wait_fill_event\<close> sees one of: \<open>select\<close> returns 0;
  \<open>select\<close> returns non-zero with the descriptor set, and \<open>fread(buf, 1, 32, in)\<close>
  stores the given bytes (\<open>r\<close> is their number); \<open>select\<close> returns non-zero without
  the descriptor set. The rounds are given as a list. The loop has no other exit than
  its \<open>return\<close>s: when the list ends before one is reached, the call has not returned
  (\<open>None\<close>).
\<close>

datatype select_result = Select_timeout | Select_read "u8 list" | Select_unset

fun wait_loop ::
  "'rb term_h \<Rightarrow> select_result list \<Rightarrow> tb_key_event \<Rightarrow> 'rb session
   \<Rightarrow> (int \<times> tb_key_event \<times> 'rb session) option" where
  "wait_loop T [] event s = None"
| "wait_loop T (Select_timeout # rs) event s = Some (0, event, s)"
| "wait_loop T (Select_unset # rs) event s = wait_loop T rs event s"
| "wait_loop T (Select_read buf # rs) event s =
     (let r = int (length buf) in
      if r = 0 then wait_loop T rs event s
      else if ringbuffer_free_space T (inbuf s) < r then Some (- 1, event, s)
      else
        let s1 = s\<lparr>inbuf := ringbuffer_push T (inbuf s) buf\<rparr> in
        case extract_event T event (inbuf s1) (inputmode s1) of
          (res, event', rb) \<Rightarrow>
            if res = 0 then Some (1, event', s1\<lparr>inbuf := rb\<rparr>)
            else wait_loop T rs event' (s1\<lparr>inbuf := rb\<rparr>))"

definition wait_fill_event ::
  "'rb term_h \<Rightarrow> select_result list \<Rightarrow> 'rb session
   \<Rightarrow> (int \<times> tb_key_event \<times> 'rb session) option" where
  "wait_fill_event T rs s =
     (case extract_event T \<lparr>ev_ch = 0, ev_key = 0, ev_mod = 0\<rparr> (inbuf s) (inputmode s) of
        (res, event, rb) \<Rightarrow>
          if res = 0 then Some (1, event, s\<lparr>inbuf := rb\<rparr>)
          else wait_loop T rs event (s\<lparr>inbuf := rb\<rparr>))"

text \<open>\<open>tb_poll_event\<close> passes no timeout to \<open>select\<close>, \<open>tb_peek_event\<close> passes the
  given one; what \<open>select\<close> then answers is in the list of rounds.\<close>

definition tb_poll_event ::
  "'rb term_h \<Rightarrow> select_result list \<Rightarrow> 'rb session
   \<Rightarrow> (int \<times> tb_key_event \<times> 'rb session) option" where
  "tb_poll_event T rs s = wait_fill_event T rs s"

definition tb_peek_event ::
  "'rb term_h \<Rightarrow> u32 \<Rightarrow> select_result list \<Rightarrow> 'rb session
   \<Rightarrow> (int \<times> tb_key_event \<times> 'rb session) option" where
  "tb_peek_event T timeout rs s = wait_fill_event T rs s"

section \<open>Well-formed buffers and sessions\<close>

text \<open>
  A buffer as \<open>cellbuf_init\<close> leaves it: the block has \<open>width * height\<close> cells, and
  this number fits an \<open>unsigned int\<close> (the dimensions come from the 16-bit \<open>ws_col\<close> and
  \<open>ws_row\<close>).
\<close>

definition cellbuf_ok :: "cellbuf \<Rightarrow> bool" where
  "cellbuf_ok buf \<longleftrightarrow>
     length (cells buf) = unat (width buf) * unat (height buf) \<and>
     unat (width buf) * unat (height buf) < 2 ^ 32"

text \<open>
  A session between \<open>tb_init\<close> and \<open>tb_shutdown\<close>: both buffers are well-formed and
  have the same dimensions, which are those of a \<open>struct winsize\<close> (16 bits each).
\<close>

definition session_ok :: "'rb session \<Rightarrow> bool" where
  "session_ok s \<longleftrightarrow>
     cellbuf_ok (back_buffer s) \<and> cellbuf_ok (front_buffer s) \<and>
     width (front_buffer s) = width (back_buffer s) \<and>
     height (front_buffer s) = height (back_buffer s) \<and>
     unat (width (back_buffer s)) < 2 ^ 16 \<and> unat (height (back_buffer s)) < 2 ^ 16"

definition blank :: tb_cell where
  "blank = \<lparr>ch = 0x20, fg = TB_WHITE, bg = TB_BLACK\<rparr>"


section \<open>Sequences of writes followed by \<open>tb_present\<close>\<close>

datatype write_op =
    Put_cell u32 u32 tb_cell
  | Change_cell u32 u32 u32 u16 u16
  | Blit u32 u32 u32 u32 "tb_cell list"

fun apply_write :: "write_op \<Rightarrow> 'rb session \<Rightarrow> error + 'rb session" where
  "apply_write (Put_cell x y c) s = tb_put_cell x y c s"
| "apply_write (Change_cell x y ch' fg' bg') s = tb_change_cell x y ch' fg' bg' s"
| "apply_write (Blit x y w h cells') s = tb_blit x y w h cells' s"

fun run_writes :: "write_op list \<Rightarrow> 'rb session \<Rightarrow> error + 'rb session" where
  "run_writes [] s = Inr s"
| "run_writes (op # ops) s =
     (case apply_write op s of Inl e \<Rightarrow> Inl e | Inr s' \<Rightarrow> run_writes ops s')"

definition writes_then_present ::
  "sys \<Rightarrow> write_op list \<Rightarrow> 'rb session \<Rightarrow> error + 'rb session" where
  "writes_then_present sy ops s =
     (case run_writes ops s of Inl e \<Rightarrow> Inl e | Inr s1 \<Rightarrow> tb_present sy s1)"

text \<open>
  A write within the bounds of a buffer: the position of a cell is inside it; the
  rectangle of a blit is inside it and the caller's array holds its \<open>w * h\<close> cells.
\<close>

fun in_bounds :: "cellbuf \<Rightarrow> write_op \<Rightarrow> bool" where
  "in_bounds b (Put_cell x y c) \<longleftrightarrow> x < width b \<and> y < height b"
| "in_bounds b (Change_cell x y ch' fg' bg') \<longleftrightarrow> x < width b \<and> y < height b"
| "in_bounds b (Blit x y w h cells') \<longleftrightarrow>
     unat x + unat w \<le> unat (width b) \<and> unat y + unat h \<le> unat (height b) \<and>
     unat w * unat h \<le> length cells'"

text \<open>What the body of \<open>tb_present\<close> keeps of a session: the back buffer, and the
  dimensions and the size of the front buffer.\<close>

definition same_shape :: "'rb session \<Rightarrow> 'rb session \<Rightarrow> bool" where
  "same_shape s t \<longleftrightarrow>
     back_buffer t = back_buffer s \<and>
     width (front_buffer t) = width (front_buffer s) \<and>
     height (front_buffer t) = height (front_buffer s) \<and>
     length (cells (front_buffer t)) = length (cells (front_buffer s))"

section \<open>Example values\<close>

text \<open>A cell showing the character \<open>c\<close> in white on black, a buffer of one row holding
  \<open>AB\<close>, and a fresh block full of \<open>?\<close>.\<close>

definition ex_cell :: "u32 \<Rightarrow> tb_cell" where
  "ex_cell c = \<lparr>ch = c, fg = TB_WHITE, bg = TB_BLACK\<rparr>"

definition ex_buf :: cellbuf where
  "ex_buf = \<lparr>width = 2, height = 1, cells = [ex_cell 0x41, ex_cell 0x42]\<rparr>"

definition ex_junk :: "nat \<Rightarrow> tb_cell" where
  "ex_junk i = ex_cell 0x3F"

text \<open>A session on a terminal of two columns and one row that shows \<open>AB\<close>, with
  nothing emitted yet, and what the system answers there.\<close>

definition ex_tios :: termios where
  "ex_tios = \<lparr>c_iflag = 0x500, c_oflag = 0x5, c_cflag = 0xBF, c_lflag = 0x8A3B,
              c_cc_VMIN = 1, c_cc_VTIME = 0\<rparr>"

definition ex_session :: "u8 list session" where
  "ex_session =
     \<lparr>orig_tios = ex_tios, back_buffer = ex_buf, front_buffer = ex_buf,
      termw = 2, termh = 1, inputmode = TB_INPUT_ESC, inbuf = [0x1B, 0x5B, 0x31],
      out_file = Some 1, in_file = Some 2, out_fileno = 3, in_fileno = 4,
      sigwinch_r = 0, lastfg = LAST_ATTR_INIT, lastbg = LAST_ATTR_INIT,
      lastx = LAST_COORD_INIT, lasty = LAST_COORD_INIT, tty_log = []\<rparr>"

definition ex_sys :: sys where
  "ex_sys =
     \<lparr>fopen_w = Some 1, fopen_r = Some 2, fileno = (\<lambda>f. int f + 2), init_term = 0,
      tcgetattr = ex_tios, ioctl_winsize = (2, 1),
      malloc_back = Some ex_junk, malloc_front = Some ex_junk\<rparr>"

text \<open>A ring of four bytes kept as the list of its contents, with a decoder that
  still waits for the rest of a key sequence.\<close>

definition ex_term_h :: "u8 list term_h" where
  "ex_term_h =
     \<lparr>extract_event = (\<lambda>event rb mode. (- 1, event, rb)),
      ringbuffer_free_space = (\<lambda>rb. 4 - int (length rb)),
      ringbuffer_push = (\<lambda>rb bytes. rb @ bytes),
      init_ringbuffer = (\<lambda>n. []),
      free_ringbuffer = (\<lambda>rb. [])\<rparr>"

text \<open>The renderer caches.\<close>

definition caches :: "'rb session \<Rightarrow> u16 \<times> u16 \<times> u32 \<times> u32" where
  "caches s = (lastfg s, lastbg s, lastx s, lasty s)"

text \<open>The globals before the first \<open>tb_init\<close>: zeroed statics, the initialisers of
  \<open>inputmode\<close> and of the caches.\<close>

definition ex_start :: "u8 list session" where
  "ex_start =
     \<lparr>orig_tios = \<lparr>c_iflag = 0, c_oflag = 0, c_cflag = 0, c_lflag = 0,
                    c_cc_VMIN = 0, c_cc_VTIME = 0\<rparr>,
      back_buffer = \<lparr>width = 0, height = 0, cells = []\<rparr>,
      front_buffer = \<lparr>width = 0, height = 0, cells = []\<rparr>,
      termw = 0, termh = 0, inputmode = TB_INPUT_ESC, inbuf = [],
      out_file = None, in_file = None, out_fileno = 0, in_fileno = 0,
      sigwinch_r = 0, lastfg = LAST_ATTR_INIT, lastbg = LAST_ATTR_INIT,
      lastx = LAST_COORD_INIT, lasty = LAST_COORD_INIT, tty_log = []\<rparr>"

text \<open>The value a call returned, if it returned.\<close>

definition returned :: "error + 'a \<Rightarrow> 'a option" where
  "returned r = (case r of Inl e \<Rightarrow> None | Inr v \<Rightarrow> Some v)"

text \<open>A session on a terminal of three columns and two rows that shows \<open>ABC\<close> over
  \<open>DEF\<close>.\<close>

definition ex_buf32 :: cellbuf where
  "ex_buf32 = \<lparr>width = 3, height = 2,
               cells = [ex_cell 0x41, ex_cell 0x42, ex_cell 0x43,
                        ex_cell 0x44, ex_cell 0x45, ex_cell 0x46]\<rparr>"

definition ex_session32 :: "u8 list session" where
  "ex_session32 =
     ex_session\<lparr>back_buffer := ex_buf32, front_buffer := ex_buf32, termw := 3, termh := 2\<rparr>"

definition ex_writes :: "write_op list" where
  "ex_writes =
     [Put_cell 2 1 (ex_cell 0x58),
      Change_cell 0 1 0x59 TB_WHITE TB_BLACK,
      Blit 0 0 2 1 [ex_cell 0x5A, ex_cell 0x5A]]"

text \<open>The two-column session after a frame that drew \<open>X\<close> at \<open>(0, 0)\<close>: the caches
  hold its attributes and position. Since then the back buffer was cleared, \<open>B\<close> was put
  at \<open>(1, 0)\<close> and the window-change signal arrived.\<close>

definition ex_stale :: "u8 list session" where
  "ex_stale =
     ex_session\<lparr>back_buffer := ex_buf\<lparr>cells := [blank, ex_cell 0x42]\<rparr>,
                front_buffer := ex_buf\<lparr>cells := [ex_cell 0x58, blank]\<rparr>,
                sigwinch_r := 1, lastfg := TB_WHITE, lastbg := TB_BLACK,
                lastx := 0, lasty := 0\<rparr>"


section \<open>Loops and cell buffers\<close>

lemma for_each_upt_inv:
  assumes "Q a s" and "a \<le> b"
    and step: "\<And>i t. a \<le> i \<Longrightarrow> i < b \<Longrightarrow> Q i t \<Longrightarrow> \<exists>t'. body i t = Inr t' \<and> Q (Suc i) t'"
  shows "\<exists>s'. for_each [a..<b] body s = Inr s' \<and> Q b s'"
  using assms
proof (induction "b - a" arbitrary: a s)
  case 0
  then show ?case by simp
next
  case (Suc n)
  then have lt: "a < b" by simp
  from Suc.prems(3)[of a s] Suc.prems(1) lt obtain t where
    t: "body a s = Inr t" "Q (Suc a) t" by auto
  have "\<exists>s'. for_each [Suc a..<b] body t = Inr s' \<and> Q b s'"
  proof (rule Suc.hyps(1))
    show "n = b - Suc a" using Suc.hyps(2) by simp
    show "Q (Suc a) t" by (rule t)
    show "Suc a \<le> b" using lt by simp
    show "\<And>i u. Suc a \<le> i \<Longrightarrow> i < b \<Longrightarrow> Q i u \<Longrightarrow> \<exists>t'. body i u = Inr t' \<and> Q (Suc i) t'"
      using Suc.prems(3) by simp
  qed
  then show ?case using lt t by (simp add: upt_conv_Cons)
qed

lemma cell_assign_all:
  "(c::tb_cell)\<lparr>ch := a, fg := b, bg := d\<rparr> = \<lparr>ch = a, fg = b, bg = d\<rparr>"
  by (cases c) simp

lemma clear_cell_blank:
  "i < length cs \<Longrightarrow> clear_cell i cs = Inr (cs[i := blank])"
  by (simp add: clear_cell_def blank_def cell_assign_all)

lemma unat_mult_u32:
  "unat (a::u32) * unat b < 2 ^ 32 \<Longrightarrow> unat (a * b) = unat a * unat b"
  by (simp add: unat_word_ariths)

lemma clear_loop:
  assumes "n \<le> length cs"
  shows "for_each [0..<n] clear_cell cs = Inr (replicate n blank @ drop n cs)"
proof -
  let ?Q = "\<lambda>i t. t = replicate i blank @ drop i cs"
  have "\<exists>t. for_each [0..<n] clear_cell cs = Inr t \<and> ?Q n t"
  proof (rule for_each_upt_inv[where Q = ?Q])
    show "cs = replicate 0 blank @ drop 0 cs" by simp
    show "0 \<le> n" by simp
  next
    fix i t
    assume i: "i < n" and t: "t = replicate i blank @ drop i cs"
    have len: "i < length t" using i assms t by simp
    have "t[i := blank] = replicate (Suc i) blank @ drop (Suc i) cs"
      using i assms t
      by (simp add: list_update_append replicate_append_same Cons_nth_drop_Suc[symmetric])
    then show "\<exists>t'. clear_cell i t = Inr t' \<and> t' = replicate (Suc i) blank @ drop (Suc i) cs"
      using clear_cell_blank[OF len] by simp
  qed
  then show ?thesis by auto
qed

lemma cellbuf_clear_eq:
  assumes "cellbuf_ok buf"
  shows "cellbuf_clear buf = Inr (buf\<lparr>cells := replicate (length (cells buf)) blank\<rparr>)"
proof -
  have n: "unat (width buf * height buf) = length (cells buf)"
    using assms by (simp add: cellbuf_ok_def unat_mult_u32)
  show ?thesis
    by (simp add: cellbuf_clear_def n clear_loop)
qed

lemma cellbuf_clear_ok:
  "cellbuf_ok buf \<Longrightarrow> cellbuf_clear buf = Inr b \<Longrightarrow> cellbuf_ok b"
  by (simp add: cellbuf_clear_eq) (auto simp: cellbuf_ok_def)


lemma memcpy_nth:
  assumes "d + n \<le> length dst" and "s + n \<le> length src" and "k < length dst"
  shows "(take d dst @ take n (drop s src) @ drop (d + n) dst) ! k =
         (if d \<le> k \<and> k < d + n then src ! (s + (k - d)) else dst ! k)"
proof -
  consider "k < d" | "d \<le> k" "k < d + n" | "d + n \<le> k" by linarith
  then show ?thesis
  proof cases
    case 1
    then show ?thesis using assms by (simp add: nth_append)
  next
    case 2
    then have "k - d < n" by simp
    with 2 show ?thesis using assms by (simp add: nth_append)
  next
    case 3
    have l: "length (take d dst @ take n (drop s src)) = d + n" using assms by simp
    have "((take d dst @ take n (drop s src)) @ drop (d + n) dst) ! k =
          drop (d + n) dst ! (k - (d + n))"
      using 3 by (simp only: nth_append l) simp
    also have "\<dots> = dst ! k" using 3 assms by simp
    finally show ?thesis using 3 by simp
  qed
qed

lemma memcpy_length:
  "memcpy_cells dst d src s n = Inr cs \<Longrightarrow> length cs = length dst"
  by (auto simp: memcpy_cells_def split: if_splits)

lemma unat_u32_bound: "unat (a::u32) < 2 ^ 32"
  by (rule order_less_le_trans[OF unsigned_less]) simp

lemma row_index_u32:
  assumes "i < unat (h::u32)" and "unat w * unat h < 2 ^ 32"
  shows "unat (of_nat i * (w::u32)) = i * unat w"
proof -
  have "i * unat w \<le> unat h * unat w" using assms(1) by (intro mult_le_mono1) simp
  also have "\<dots> = unat w * unat h" by (simp add: mult.commute)
  also have "\<dots> < 2 ^ 32" by (rule assms(2))
  finally have lt: "i * unat w < 2 ^ 32" .
  have "i < 2 ^ 32" using assms(1) unat_u32_bound[of h] by simp
  then have "unat (of_nat i :: u32) = i" by (simp add: unat_of_nat)
  then show ?thesis using lt by (simp add: unat_word_ariths)
qed

lemma cell_index_u32:
  assumes "i < unat (h::u32)" and "j < unat (w::u32)" and "unat w * unat h < 2 ^ 32"
  shows "unat (of_nat i * w + of_nat j) = i * unat w + j"
proof -
  have "i * unat w + j < i * unat w + unat w" using assms(2) by simp
  also have "\<dots> = Suc i * unat w" by simp
  also have "\<dots> \<le> unat h * unat w" using assms(1) by (intro mult_le_mono1) simp
  also have "\<dots> = unat w * unat h" by (simp add: mult.commute)
  also have "\<dots> < 2 ^ 32" by (rule assms(3))
  finally have lt: "i * unat w + j < 2 ^ 32" .
  have "j < 2 ^ 32" using assms(2) unat_u32_bound[of w] by simp
  then have j: "unat (of_nat j :: u32) = j" by (simp add: unat_of_nat)
  have "unat (of_nat i * w) = i * unat w" by (rule row_index_u32[OF assms(1,3)])
  then show ?thesis using lt j by (simp add: unat_word_ariths)
qed

lemma row_end_le:
  assumes "i < (h::nat)" and "n \<le> w"
  shows "i * w + n \<le> w * h"
proof -
  have "i * w + n \<le> Suc i * w" using assms(2) by simp
  also have "\<dots> \<le> h * w" using assms(1) by (intro mult_le_mono1) simp
  finally show ?thesis by (simp add: mult.commute)
qed

lemma row_col_in_row:
  assumes "c < (w::nat)" and "n \<le> w"
  shows "(i * w \<le> r * w + c \<and> r * w + c < i * w + n) \<longleftrightarrow> (r = i \<and> c < n)"
proof (cases r i rule: linorder_cases)
  case less
  then have "Suc r * w \<le> i * w" by (intro mult_le_mono1) simp
  then have "r * w + c < i * w" using assms by simp
  with less show ?thesis by simp
next
  case equal
  then show ?thesis by simp
next
  case greater
  then have "Suc i * w \<le> r * w" by (intro mult_le_mono1) simp
  then have "i * w + n \<le> r * w + c" using assms(2) by simp
  with greater show ?thesis by simp
qed

lemma malloc_cells_eq:
  assumes "unat w * unat h < 2 ^ 32"
  shows "malloc_cells w h = unat w * unat h"
proof -
  have "8 * (unat w * unat h) < 8 * (2 ^ 32 :: nat)" using assms by (simp add: mult.commute)
  also have "\<dots> < 2 ^ 64" by simp
  finally have "8 * (unat w * unat h) < (2 ^ 64 :: nat)" .
  then have "(8 * (unat w * unat h)) mod 2 ^ 64 = 8 * (unat w * unat h)" by (rule mod_less)
  then show ?thesis by (simp add: malloc_cells_def mult.assoc)
qed

text \<open>The copy loop of \<open>cellbuf_resize\<close>, started on the cleared new block.\<close>

lemma resize_rows:
  fixes w h ow oh :: u32
  assumes new: "unat w * unat h < 2 ^ 32" and old: "unat ow * unat oh < 2 ^ 32"
    and lo: "length oldcells = unat ow * unat oh"
    and lc: "length cs = unat w * unat h"
    and mw: "unat minw \<le> unat w" "unat minw \<le> unat ow"
    and mh: "mh \<le> unat h" "mh \<le> unat oh"
  shows "\<exists>cs'. for_each [0..<mh] (resize_row oldcells ow w minw) cs = Inr cs' \<and>
           length cs' = unat w * unat h \<and>
           (\<forall>r c. r < unat h \<longrightarrow> c < unat w \<longrightarrow>
              cs' ! (r * unat w + c) =
                (if r < mh \<and> c < unat minw then oldcells ! (r * unat ow + c)
                 else cs ! (r * unat w + c)))"
proof -
  let ?Q = "\<lambda>i t. length t = unat w * unat h \<and>
           (\<forall>r c. r < unat h \<longrightarrow> c < unat w \<longrightarrow>
              t ! (r * unat w + c) =
                (if r < i \<and> c < unat minw then oldcells ! (r * unat ow + c)
                 else cs ! (r * unat w + c)))"
  have "\<exists>t. for_each [0..<mh] (resize_row oldcells ow w minw) cs = Inr t \<and> ?Q mh t"
  proof (rule for_each_upt_inv[where Q = ?Q])
    show "?Q 0 cs" using lc by simp
    show "0 \<le> mh" by simp
  next
    fix i t
    assume i: "i < mh" and Q: "?Q i t"
    have ih: "i < unat h" and ioh: "i < unat oh" using i mh by simp_all
    have d: "unat (of_nat i * w) = i * unat w" by (rule row_index_u32[OF ih new])
    have s: "unat (of_nat i * ow) = i * unat ow" by (rule row_index_u32[OF ioh old])
    have dn: "i * unat w + unat minw \<le> length t"
      using Q row_end_le[OF ih mw(1)] by simp
    have sn: "i * unat ow + unat minw \<le> length oldcells"
      using lo row_end_le[OF ioh mw(2)] by simp
    let ?t' = "take (i * unat w) t @ take (unat minw) (drop (i * unat ow) oldcells)
               @ drop (i * unat w + unat minw) t"
    have step: "resize_row oldcells ow w minw i t = Inr ?t'"
      using dn sn by (simp add: resize_row_def memcpy_cells_def d s)
    have len: "length ?t' = unat w * unat h" using Q dn sn by simp
    have cellv: "?t' ! (r * unat w + c) =
                (if r < Suc i \<and> c < unat minw then oldcells ! (r * unat ow + c)
                 else cs ! (r * unat w + c))" if r: "r < unat h" and c: "c < unat w" for r c
    proof -
      have k: "r * unat w + c < length t"
      proof -
        have "r * unat w + c < r * unat w + unat w" using c by simp
        also have "\<dots> \<le> unat w * unat h" using row_end_le[OF r, of "unat w" "unat w"] by simp
        finally show ?thesis using Q by simp
      qed
      have "?t' ! (r * unat w + c) =
            (if i * unat w \<le> r * unat w + c \<and> r * unat w + c < i * unat w + unat minw
             then oldcells ! (i * unat ow + (r * unat w + c - i * unat w))
             else t ! (r * unat w + c))"
        by (rule memcpy_nth[OF dn sn k])
      also have "\<dots> = (if r = i \<and> c < unat minw then oldcells ! (i * unat ow + c)
                        else t ! (r * unat w + c))"
        using row_col_in_row[OF c mw(1), of i r] by auto
      also have "\<dots> = (if r < Suc i \<and> c < unat minw then oldcells ! (r * unat ow + c)
                 else cs ! (r * unat w + c))"
        using Q r c by (auto simp: less_Suc_eq)
      finally show ?thesis .
    qed
    show "\<exists>t'. resize_row oldcells ow w minw i t = Inr t' \<and> ?Q (Suc i) t'"
      using step len cellv by blast
  qed
  then show ?thesis by blast
qed

lemma CELL_nat:
  assumes "x < width b" and "y < height b" and "unat (width b) * unat (height b) < 2 ^ 32"
  shows "CELL b x y = unat y * unat (width b) + unat x"
proof -
  have "unat (of_nat (unat y) * width b + of_nat (unat x)) = unat y * unat (width b) + unat x"
    using assms by (intro cell_index_u32[where h = "height b"]) (simp_all add: word_less_nat_alt)
  then show ?thesis by (simp add: CELL_def)
qed

lemma CELL_in_range:
  assumes "x < width b" and "y < height b" and "cellbuf_ok b"
  shows "CELL b x y < length (cells b)"
proof -
  have "CELL b x y = unat y * unat (width b) + unat x"
    using assms by (intro CELL_nat) (simp_all add: cellbuf_ok_def)
  also have "\<dots> < unat y * unat (width b) + unat (width b)"
    using assms(1) by (simp add: word_less_nat_alt)
  also have "\<dots> \<le> unat (width b) * unat (height b)"
    using assms(2) by (intro row_end_le) (simp_all add: word_less_nat_alt)
  finally show ?thesis using assms(3) by (simp add: cellbuf_ok_def)
qed

text \<open>What \<open>cellbuf_resize\<close> leaves in the new block when the dimensions change.\<close>

lemma cellbuf_resize_changed:
  assumes ok: "cellbuf_ok buf" and new: "unat w * unat h < 2 ^ 32"
    and ch: "\<not> (width buf = w \<and> height buf = h)"
  shows "\<exists>b. cellbuf_resize (Some junk) buf w h = Inr b \<and> width b = w \<and> height b = h \<and>
           length (cells b) = unat w * unat h \<and>
           (\<forall>r c. r < unat h \<longrightarrow> c < unat w \<longrightarrow>
              cells b ! (r * unat w + c) =
                (if r < unat (min h (height buf)) \<and> c < unat (min w (width buf))
                 then cells buf ! (r * unat (width buf) + c) else blank))"
proof -
  let ?n = "unat w * unat h"
  let ?b1 = "buf\<lparr>cells := map junk [0..<?n], width := w, height := h\<rparr>"
  let ?b2 = "?b1\<lparr>cells := replicate ?n blank\<rparr>"
  let ?minw = "if w < width buf then w else width buf"
  let ?minh = "if h < height buf then h else height buf"
  have init: "cellbuf_init (Some junk) buf w h = Inr ?b1"
    by (simp add: cellbuf_init_def malloc_cells_eq[OF new])
  have ok1: "cellbuf_ok ?b1" using new by (simp add: cellbuf_ok_def)
  have clr: "cellbuf_clear ?b1 = Inr ?b2"
    using cellbuf_clear_eq[OF ok1] by simp
  have minw: "?minw = min w (width buf)" and minh: "?minh = min h (height buf)"
    by (auto simp: min_def)
  have mw: "unat (min w (width buf)) \<le> unat w" "unat (min w (width buf)) \<le> unat (width buf)"
    by (simp_all add: min_def word_le_nat_alt)
  have mh: "unat (min h (height buf)) \<le> unat h" "unat (min h (height buf)) \<le> unat (height buf)"
    by (simp_all add: min_def word_le_nat_alt)
  from ok have old: "unat (width buf) * unat (height buf) < 2 ^ 32"
    and lo: "length (cells buf) = unat (width buf) * unat (height buf)"
    by (simp_all add: cellbuf_ok_def)
  have lc: "length (replicate ?n blank) = unat w * unat h" by simp
  from resize_rows[OF new old lo lc mw mh] obtain cs' where
    loop: "for_each [0..<unat (min h (height buf))]
             (resize_row (cells buf) (width buf) w (min w (width buf))) (replicate ?n blank) = Inr cs'"
    and len: "length cs' = unat w * unat h"
    and val: "\<forall>r c. r < unat h \<longrightarrow> c < unat w \<longrightarrow>
              cs' ! (r * unat w + c) =
                (if r < unat (min h (height buf)) \<and> c < unat (min w (width buf))
                 then cells buf ! (r * unat (width buf) + c)
                 else replicate ?n blank ! (r * unat w + c))"
    by blast
  have bl: "replicate ?n blank ! (r * unat w + c) = blank" if "r < unat h" "c < unat w" for r c
  proof -
    have "r * unat w + c < r * unat w + unat w" using that by simp
    also have "\<dots> \<le> ?n" using that by (intro row_end_le) simp_all
    finally show ?thesis by simp
  qed
  have res: "cellbuf_resize (Some junk) buf w h = Inr (?b2\<lparr>cells := cs'\<rparr>)"
    unfolding cellbuf_resize_def using loop
    by (simp only: if_not_P[OF ch]) (simp add: init clr Let_def minw minh)
  show ?thesis
    using res len val bl by (intro exI[of _ "?b2\<lparr>cells := cs'\<rparr>"]) simp
qed

lemma cellbuf_resize_same:
  "width buf = w \<and> height buf = h \<Longrightarrow> cellbuf_resize m buf w h = Inr buf"
  by (simp add: cellbuf_resize_def)

lemma cellbuf_resize_ok:
  assumes "cellbuf_ok buf" and "unat w * unat h < 2 ^ 32"
  shows "\<exists>b. cellbuf_resize (Some junk) buf w h = Inr b \<and> cellbuf_ok b \<and>
           width b = w \<and> height b = h"
proof (cases "width buf = w \<and> height buf = h")
  case True
  then show ?thesis using assms(1) by (simp add: cellbuf_resize_same)
next
  case False
  from cellbuf_resize_changed[OF assms False, of junk] show ?thesis
    using assms(2) by (auto simp: cellbuf_ok_def)
qed


text \<open>
  Claim C8. On a well-formed buffer, \<open>cellbuf_resize\<close> with the buffer's own
  dimensions returns the buffer as it is. With other dimensions (whose product fits an
  \<open>unsigned int\<close>) and a successful \<open>malloc\<close>, the buffer has the new dimensions and,
  for every column \<open>x\<close> below the smaller width and every row \<open>y\<close> below the smaller
  height, its cell at \<open>(x, y)\<close> is the cell that was at \<open>(x, y)\<close> before.
\<close>

theorem cellbuf_resize_preserves:
  assumes "cellbuf_ok buf" and "unat w * unat h < 2 ^ 32"
  shows "(width buf = w \<and> height buf = h \<longrightarrow> cellbuf_resize m buf w h = Inr buf) \<and>
         (\<not> (width buf = w \<and> height buf = h) \<longrightarrow>
            (\<exists>b. cellbuf_resize (Some junk) buf w h = Inr b \<and> width b = w \<and> height b = h \<and>
               (\<forall>x y. x < min w (width buf) \<longrightarrow> y < min h (height buf) \<longrightarrow>
                  cells b ! CELL b x y = cells buf ! CELL buf x y)))"
proof (intro conjI impI)
  assume "width buf = w \<and> height buf = h"
  then show "cellbuf_resize m buf w h = Inr buf" by (rule cellbuf_resize_same)
next
  assume ch: "\<not> (width buf = w \<and> height buf = h)"
  from cellbuf_resize_changed[OF assms ch, of junk] obtain b where
    b: "cellbuf_resize (Some junk) buf w h = Inr b" "width b = w" "height b = h"
    and val: "\<And>r c. r < unat h \<Longrightarrow> c < unat w \<Longrightarrow>
              cells b ! (r * unat w + c) =
                (if r < unat (min h (height buf)) \<and> c < unat (min w (width buf))
                 then cells buf ! (r * unat (width buf) + c) else blank)"
    by blast
  have "cells b ! CELL b x y = cells buf ! CELL buf x y"
    if x: "x < min w (width buf)" and y: "y < min h (height buf)" for x y
  proof -
    have xs: "x < w" "x < width buf" and ys: "y < h" "y < height buf"
      using x y by simp_all
    have nb: "CELL b x y = unat y * unat w + unat x"
      using xs ys b assms(2) by (intro CELL_nat[where b = b, simplified b(2,3)]) simp_all
    have ob: "CELL buf x y = unat y * unat (width buf) + unat x"
      using xs ys assms(1) by (intro CELL_nat) (simp_all add: cellbuf_ok_def)
    have "cells b ! (unat y * unat w + unat x) =
          cells buf ! (unat y * unat (width buf) + unat x)"
      using val[of "unat y" "unat x"] x y xs ys by (simp add: word_less_nat_alt)
    then show ?thesis by (simp add: nb ob)
  qed
  then show "\<exists>b. cellbuf_resize (Some junk) buf w h = Inr b \<and> width b = w \<and> height b = h \<and>
               (\<forall>x y. x < min w (width buf) \<longrightarrow> y < min h (height buf) \<longrightarrow>
                  cells b ! CELL b x y = cells buf ! CELL buf x y)"
    using b by blast
qed

lemma ex_buf_ok: "cellbuf_ok ex_buf"
  by (simp add: cellbuf_ok_def ex_buf_def)

lemma ex_resize_eval:
  "cellbuf_resize (Some ex_junk) ex_buf 1 2 =
     Inr \<lparr>width = 1, height = 2, cells = [ex_cell 0x41, blank]\<rparr>"
  by (simp add: cellbuf_resize_def ex_buf_def cellbuf_init_def malloc_cells_def
      cellbuf_clear_def clear_cell_def resize_row_def memcpy_cells_def ex_junk_def
      ex_cell_def blank_def upt_conv_Cons)

theorem cellbuf_resize_preserves_witness:
  "cellbuf_ok ex_buf \<and> unat (1::u32) * unat (2::u32) < 2 ^ 32 \<and>
   cellbuf_resize None ex_buf 2 1 = Inr ex_buf \<and>
   cellbuf_resize (Some ex_junk) ex_buf 1 2 =
     Inr \<lparr>width = 1, height = 2, cells = [ex_cell 0x41, blank]\<rparr> \<and>
   (0::u32) < min 1 (width ex_buf) \<and> (0::u32) < min 2 (height ex_buf) \<and>
   [ex_cell 0x41, blank] ! CELL \<lparr>width = 1, height = 2, cells = [ex_cell 0x41, blank]\<rparr> 0 0 =
     cells ex_buf ! CELL ex_buf 0 0"
proof -
  have h2: "unat (1::u32) * unat (2::u32) < 2 ^ 32" by simp
  have same: "width ex_buf = 2 \<and> height ex_buf = 1" by (simp add: ex_buf_def)
  have diff: "\<not> (width ex_buf = 1 \<and> height ex_buf = 2)" by (simp add: ex_buf_def)
  have x: "(0::u32) < min 1 (width ex_buf)" and y: "(0::u32) < min 2 (height ex_buf)"
    by (simp_all add: ex_buf_def)
  from cellbuf_resize_preserves[OF ex_buf_ok, of 2 1 None] same
  have noop: "cellbuf_resize None ex_buf 2 1 = Inr ex_buf" by simp
  from cellbuf_resize_preserves[OF ex_buf_ok h2, of None ex_junk] diff obtain b where
    b: "cellbuf_resize (Some ex_junk) ex_buf 1 2 = Inr b"
    and keep: "\<forall>x y. x < min 1 (width ex_buf) \<longrightarrow> y < min 2 (height ex_buf) \<longrightarrow>
                  cells b ! CELL b x y = cells ex_buf ! CELL ex_buf x y"
    by blast
  from b have be: "b = \<lparr>width = 1, height = 2, cells = [ex_cell 0x41, blank]\<rparr>"
    by (simp add: ex_resize_eval)
  from keep x y have "cells b ! CELL b 0 0 = cells ex_buf ! CELL ex_buf 0 0" by blast
  then show ?thesis using ex_buf_ok h2 noop x y by (simp add: be ex_resize_eval)
qed

text \<open>
  Claim C10. When \<open>cellbuf_resize\<close> changes the dimensions, every position of the new
  rectangle outside the intersection with the old one holds \<open>(' ', white, black)\<close>,
  whatever the fresh block contained.
\<close>

theorem cellbuf_resize_exposed_blank:
  assumes "cellbuf_ok buf" and "unat w * unat h < 2 ^ 32"
    and "\<not> (width buf = w \<and> height buf = h)"
  shows "\<exists>b. cellbuf_resize (Some junk) buf w h = Inr b \<and> width b = w \<and> height b = h \<and>
           (\<forall>x y. x < w \<longrightarrow> y < h \<longrightarrow>
              \<not> (x < min w (width buf) \<and> y < min h (height buf)) \<longrightarrow>
              cells b ! CELL b x y = blank)"
proof -
  from cellbuf_resize_changed[OF assms, of junk] obtain b where
    b: "cellbuf_resize (Some junk) buf w h = Inr b" "width b = w" "height b = h"
    and val: "\<And>r c. r < unat h \<Longrightarrow> c < unat w \<Longrightarrow>
              cells b ! (r * unat w + c) =
                (if r < unat (min h (height buf)) \<and> c < unat (min w (width buf))
                 then cells buf ! (r * unat (width buf) + c) else blank)"
    by blast
  have "cells b ! CELL b x y = blank"
    if x: "x < w" and y: "y < h"
      and out: "\<not> (x < min w (width buf) \<and> y < min h (height buf))" for x y
  proof -
    have nb: "CELL b x y = unat y * unat w + unat x"
      using x y b assms(2) by (intro CELL_nat[where b = b, simplified b(2,3)]) simp_all
    have "\<not> (unat y < unat (min h (height buf)) \<and> unat x < unat (min w (width buf)))"
      using out by (auto simp add: word_less_nat_alt)
    then have "cells b ! (unat y * unat w + unat x) = blank"
      using val[of "unat y" "unat x"] x y by (auto simp add: word_less_nat_alt)
    then show ?thesis by (simp add: nb)
  qed
  then show ?thesis using b by blast
qed

theorem cellbuf_resize_exposed_blank_witness:
  "cellbuf_ok ex_buf \<and> unat (1::u32) * unat (2::u32) < 2 ^ 32 \<and>
   \<not> (width ex_buf = 1 \<and> height ex_buf = 2) \<and>
   cellbuf_resize (Some ex_junk) ex_buf 1 2 =
     Inr \<lparr>width = 1, height = 2, cells = [ex_cell 0x41, blank]\<rparr> \<and>
   (0::u32) < 1 \<and> (1::u32) < 2 \<and>
   \<not> ((0::u32) < min 1 (width ex_buf) \<and> (1::u32) < min 2 (height ex_buf)) \<and>
   [ex_cell 0x41, blank] ! CELL \<lparr>width = 1, height = 2, cells = [ex_cell 0x41, blank]\<rparr> 0 1 = blank"
proof -
  have h2: "unat (1::u32) * unat (2::u32) < 2 ^ 32" by simp
  have diff: "\<not> (width ex_buf = 1 \<and> height ex_buf = 2)" by (simp add: ex_buf_def)
  have out: "\<not> ((0::u32) < min 1 (width ex_buf) \<and> (1::u32) < min 2 (height ex_buf))"
    by (simp add: ex_buf_def)
  from cellbuf_resize_exposed_blank[OF ex_buf_ok h2 diff, of ex_junk] obtain b where
    b: "cellbuf_resize (Some ex_junk) ex_buf 1 2 = Inr b"
    and fresh: "\<forall>x y. x < 1 \<longrightarrow> y < 2 \<longrightarrow>
              \<not> (x < min 1 (width ex_buf) \<and> y < min 2 (height ex_buf)) \<longrightarrow>
              cells b ! CELL b x y = blank"
    by blast
  from b have be: "b = \<lparr>width = 1, height = 2, cells = [ex_cell 0x41, blank]\<rparr>"
    by (simp add: ex_resize_eval)
  from fresh out have "cells b ! CELL b 0 1 = blank" by simp
  then show ?thesis using ex_buf_ok h2 diff out by (simp add: be ex_resize_eval)
qed


section \<open>Session invariant\<close>

lemma unat_u16_bound: "unat (a::u16) < 2 ^ 16"
  by (rule order_less_le_trans[OF unsigned_less]) simp

lemma unat_ucast16: "unat (ucast (c::u16) :: u32) = unat c"
proof -
  have "unat c < 2 ^ 32" using unat_u16_bound[of c] by simp
  then show ?thesis by (simp add: unsigned_ucast_eq take_bit_nat_eq_self)
qed

lemma winsize_fits:
  "unat (ucast (c::u16) :: u32) * unat (ucast (r::u16) :: u32) < 2 ^ 32"
proof -
  have "unat c * unat r \<le> (2 ^ 16 - 1) * (2 ^ 16 - 1)"
    using unat_u16_bound[of c] unat_u16_bound[of r] by (intro mult_mono) simp_all
  also have "\<dots> < (2 ^ 32 :: nat)" by simp
  finally show ?thesis by (simp add: unat_ucast16)
qed

lemma send_attr_frame:
  "back_buffer (send_attr f b s) = back_buffer s"
  "front_buffer (send_attr f b s) = front_buffer s"
  "lastx (send_attr f b s) = lastx s" "lasty (send_attr f b s) = lasty s"
  "sigwinch_r (send_attr f b s) = sigwinch_r s"
  by (simp_all add: send_attr_def emit_def)

lemma send_attr_last:
  "lastfg (send_attr f b s) = f" "lastbg (send_attr f b s) = b"
  by (auto simp: send_attr_def emit_def)

lemma send_char_frame:
  "back_buffer (send_char x y c s) = back_buffer s"
  "front_buffer (send_char x y c s) = front_buffer s"
  "lastfg (send_char x y c s) = lastfg s" "lastbg (send_char x y c s) = lastbg s"
  "sigwinch_r (send_char x y c s) = sigwinch_r s"
  by (simp_all add: send_char_def emit_def Let_def)

lemma send_clear_frame:
  "back_buffer (send_clear s) = back_buffer s"
  "front_buffer (send_clear s) = front_buffer s"
  "lastx (send_clear s) = lastx s" "lasty (send_clear s) = lasty s"
  "lastfg (send_clear s) = TB_WHITE" "lastbg (send_clear s) = TB_BLACK"
  by (simp_all add: send_clear_def emit_def send_attr_frame send_attr_last)

text \<open>Resize reconciliation on a well-formed session, when both \<open>malloc\<close>s succeed.\<close>

lemma check_sigwinch_pending:
  assumes ok: "session_ok s" and pend: "sigwinch_r s \<noteq> 0"
    and mb: "malloc_back sy = Some jb" and mf: "malloc_front sy = Some jf"
  shows "\<exists>bb fb. cellbuf_ok bb \<and> cellbuf_ok fb \<and>
           width bb = ucast (fst (ioctl_winsize sy)) \<and> height bb = ucast (snd (ioctl_winsize sy)) \<and>
           width fb = width bb \<and> height fb = height bb \<and>
           cells fb = replicate (length (cells fb)) blank \<and>
           cellbuf_resize (Some jb) (back_buffer s) (width bb) (height bb) = Inr bb \<and>
           check_sigwinch sy s =
             Inr ((send_clear (s\<lparr>termw := width bb, termh := height bb,
                                  back_buffer := bb, front_buffer := fb\<rparr>))\<lparr>sigwinch_r := 0\<rparr>)"
proof -
  obtain c r where cr: "ioctl_winsize sy = (c, r)" by (cases "ioctl_winsize sy")
  let ?w = "ucast c :: u32" and ?h = "ucast r :: u32"
  have fits: "unat ?w * unat ?h < 2 ^ 32" by (rule winsize_fits)
  from ok have okb: "cellbuf_ok (back_buffer s)" and okf: "cellbuf_ok (front_buffer s)"
    by (simp_all add: session_ok_def)
  from cellbuf_resize_ok[OF okb fits, of jb] obtain bb where
    bb: "cellbuf_resize (Some jb) (back_buffer s) ?w ?h = Inr bb" "cellbuf_ok bb"
      "width bb = ?w" "height bb = ?h" by blast
  from cellbuf_resize_ok[OF okf fits, of jf] obtain fb where
    fb: "cellbuf_resize (Some jf) (front_buffer s) ?w ?h = Inr fb" "cellbuf_ok fb"
      "width fb = ?w" "height fb = ?h" by blast
  let ?fb' = "fb\<lparr>cells := replicate (length (cells fb)) blank\<rparr>"
  have clr: "cellbuf_clear fb = Inr ?fb'" by (rule cellbuf_clear_eq[OF fb(2)])
  have okf': "cellbuf_ok ?fb'" using fb(2) by (simp add: cellbuf_ok_def)
  have "check_sigwinch sy s =
          Inr ((send_clear (s\<lparr>termw := width bb, termh := height bb,
                               back_buffer := bb, front_buffer := ?fb'\<rparr>))\<lparr>sigwinch_r := 0\<rparr>)"
    using pend by (simp add: check_sigwinch_def update_term_size_def cr mb mf bb fb clr)
  then show ?thesis
    using bb fb okf' cr by (intro exI[of _ bb] exI[of _ ?fb']) simp
qed

lemma check_sigwinch_idle:
  "sigwinch_r s = 0 \<Longrightarrow> check_sigwinch sy s = Inr s"
  by (simp add: check_sigwinch_def)

text \<open>Resize reconciliation keeps the session invariant.\<close>

lemma check_sigwinch_keeps_ok:
  assumes ok: "session_ok s"
    and mb: "malloc_back sy = Some jb" and mf: "malloc_front sy = Some jf"
  shows "\<exists>s'. check_sigwinch sy s = Inr s' \<and> session_ok s' \<and> sigwinch_r s' = 0"
proof (cases "sigwinch_r s = 0")
  case True
  then show ?thesis using ok by (simp add: check_sigwinch_idle)
next
  case False
  from check_sigwinch_pending[OF ok False mb mf] obtain bb fb where
    b: "cellbuf_ok bb" "cellbuf_ok fb"
      "width bb = ucast (fst (ioctl_winsize sy))" "height bb = ucast (snd (ioctl_winsize sy))"
      "width fb = width bb" "height fb = height bb"
    and r: "check_sigwinch sy s =
             Inr ((send_clear (s\<lparr>termw := width bb, termh := height bb,
                                  back_buffer := bb, front_buffer := fb\<rparr>))\<lparr>sigwinch_r := 0\<rparr>)"
    by blast
  have small: "unat (width bb) < 2 ^ 16" "unat (height bb) < 2 ^ 16"
    using unat_u16_bound[of "fst (ioctl_winsize sy)"] unat_u16_bound[of "snd (ioctl_winsize sy)"]
    by (simp_all add: b(3,4) unat_ucast16)
  show ?thesis
    using b small by (simp add: r session_ok_def send_clear_frame)
qed


section \<open>\<open>tb_clear\<close>\<close>

lemma ex_session_simps:
  "back_buffer ex_session = ex_buf" "front_buffer ex_session = ex_buf"
  "sigwinch_r ex_session = 0" "tty_log ex_session = []"
  "lastfg ex_session = LAST_ATTR_INIT" "lastbg ex_session = LAST_ATTR_INIT"
  "lastx ex_session = LAST_COORD_INIT" "lasty ex_session = LAST_COORD_INIT"
  "inbuf ex_session = [0x1B, 0x5B, 0x31]"
  by (simp_all add: ex_session_def)

lemma ex_buf_simps:
  "width ex_buf = 2" "height ex_buf = 1" "cells ex_buf = [ex_cell 0x41, ex_cell 0x42]"
  by (simp_all add: ex_buf_def)

lemma ex_pending_ok:
  "session_ok (sigwinch_handler ex_session)" "sigwinch_r (sigwinch_handler ex_session) \<noteq> 0"
  by (simp_all add: session_ok_def sigwinch_handler_def ex_session_simps ex_buf_ok ex_buf_simps)

lemma ex_sys_malloc: "malloc_back ex_sys = Some ex_junk" "malloc_front ex_sys = Some ex_junk"
  by (simp_all add: ex_sys_def)

text \<open>
  Claim C3, amended. On a well-formed session \<open>tb_clear\<close> returns with every cell of the
  back buffer \<open>(' ', white, black)\<close>, whether or not a resize is pending (the \<open>malloc\<close>s
  of a pending resize are taken to succeed). With no resize pending it has then written
  nothing to the terminal, and the front buffer and the dimensions of the back buffer
  are as before.
\<close>

theorem tb_clear_fills:
  "(session_ok s \<and> malloc_back sy = Some jb \<and> malloc_front sy = Some jf \<longrightarrow>
      (\<exists>s'. tb_clear sy s = Inr s' \<and> cellbuf_ok (back_buffer s') \<and>
         cells (back_buffer s') =
           replicate (unat (width (back_buffer s')) * unat (height (back_buffer s'))) blank)) \<and>
   (cellbuf_ok (back_buffer s) \<and> sigwinch_r s = 0 \<longrightarrow>
      (\<exists>s'. tb_clear sy s = Inr s' \<and>
         width (back_buffer s') = width (back_buffer s) \<and>
         height (back_buffer s') = height (back_buffer s) \<and>
         cells (back_buffer s') =
           replicate (unat (width (back_buffer s)) * unat (height (back_buffer s))) blank \<and>
         tty_log s' = tty_log s \<and> front_buffer s' = front_buffer s))"
proof -
  have p1: "\<exists>s'. tb_clear sy s = Inr s' \<and> cellbuf_ok (back_buffer s') \<and>
         cells (back_buffer s') =
           replicate (unat (width (back_buffer s')) * unat (height (back_buffer s'))) blank"
    if a: "session_ok s \<and> malloc_back sy = Some jb \<and> malloc_front sy = Some jf"
  proof -
    from a check_sigwinch_keeps_ok[of s sy jb jf] obtain s1 where
      s1: "check_sigwinch sy s = Inr s1" "session_ok s1" by blast
    have okb: "cellbuf_ok (back_buffer s1)" using s1(2) by (simp add: session_ok_def)
    show ?thesis
      using s1(1) okb cellbuf_clear_eq[OF okb]
      by (simp add: tb_clear_def cellbuf_ok_def)
  qed
  have p2: "\<exists>s'. tb_clear sy s = Inr s' \<and>
         width (back_buffer s') = width (back_buffer s) \<and>
         height (back_buffer s') = height (back_buffer s) \<and>
         cells (back_buffer s') =
           replicate (unat (width (back_buffer s)) * unat (height (back_buffer s))) blank \<and>
         tty_log s' = tty_log s \<and> front_buffer s' = front_buffer s"
    if a: "cellbuf_ok (back_buffer s) \<and> sigwinch_r s = 0"
  proof -
    from a have okb: "cellbuf_ok (back_buffer s)" and idle: "sigwinch_r s = 0" by simp_all
    show ?thesis
      using okb idle cellbuf_clear_eq[OF okb]
      by (simp add: tb_clear_def check_sigwinch_idle cellbuf_ok_def)
  qed
  from p1 p2 show ?thesis by blast
qed

theorem tb_clear_fills_witness:
  "session_ok (sigwinch_handler ex_session) \<and>
   malloc_back ex_sys = Some ex_junk \<and> malloc_front ex_sys = Some ex_junk \<and>
   map_option back_buffer (returned (tb_clear ex_sys (sigwinch_handler ex_session))) =
     Some (ex_buf\<lparr>cells := [blank, blank]\<rparr>) \<and>
   cellbuf_ok (back_buffer ex_session) \<and> sigwinch_r ex_session = 0 \<and>
   tb_clear ex_sys ex_session =
     Inr (ex_session\<lparr>back_buffer := ex_buf\<lparr>cells := [blank, blank]\<rparr>\<rparr>)"
proof -
  have ok: "cellbuf_ok (back_buffer ex_session)" by (simp add: ex_session_simps ex_buf_ok)
  have idle: "sigwinch_r ex_session = 0" by (simp add: ex_session_simps)
  note inst = tb_clear_fills[where sy = ex_sys and jb = ex_junk and jf = ex_junk]
  from inst[of "sigwinch_handler ex_session"] ex_pending_ok(1) ex_sys_malloc obtain s1 where
    s1: "tb_clear ex_sys (sigwinch_handler ex_session) = Inr s1"
    and c1: "cells (back_buffer s1) =
               replicate (unat (width (back_buffer s1)) * unat (height (back_buffer s1))) blank"
    by blast
  have "check_sigwinch ex_sys (sigwinch_handler ex_session) =
          Inr ((send_clear ((sigwinch_handler ex_session)
                              \<lparr>front_buffer := ex_buf\<lparr>cells := [blank, blank]\<rparr>\<rparr>))
                 \<lparr>sigwinch_r := 0\<rparr>)"
    using cellbuf_clear_eq[OF ex_buf_ok]
    by (simp add: check_sigwinch_def sigwinch_handler_def update_term_size_def ex_sys_def
        cellbuf_resize_same ex_session_def ex_buf_simps)
  then have "\<exists>cs. back_buffer s1 = ex_buf\<lparr>cells := cs\<rparr>"
    using s1 cellbuf_clear_eq[OF ex_buf_ok]
    by (auto simp: tb_clear_def send_clear_frame sigwinch_handler_def ex_session_simps ex_buf_simps)
  then obtain cs where cs: "back_buffer s1 = ex_buf\<lparr>cells := cs\<rparr>" by blast
  have r2: "replicate 2 blank = [blank, blank]" by (simp add: numeral_2_eq_2)
  have "cs = replicate 2 blank" using c1 by (simp add: cs ex_buf_simps)
  then have a: "back_buffer s1 = ex_buf\<lparr>cells := [blank, blank]\<rparr>"
    by (simp only: cs r2)
  from inst[of ex_session] ok idle obtain s2 where
    s2: "tb_clear ex_sys ex_session = Inr s2"
    and c2: "cells (back_buffer s2) =
               replicate (unat (width (back_buffer ex_session)) *
                          unat (height (back_buffer ex_session))) blank"
    and f2: "tty_log s2 = tty_log ex_session" "front_buffer s2 = front_buffer ex_session"
    by blast
  have b: "tb_clear ex_sys ex_session =
          Inr (ex_session\<lparr>back_buffer := ex_buf\<lparr>cells := [blank, blank]\<rparr>\<rparr>)"
    using cellbuf_clear_eq[OF ex_buf_ok]
    by (simp add: tb_clear_def check_sigwinch_idle ex_session_simps ex_buf_simps)
  show ?thesis
    using ex_pending_ok(1) ex_sys_malloc ok idle s1 a b by (simp add: returned_def)
qed

text \<open>
  Claim C3 as stated fails with a resize pending: \<open>tb_clear\<close> then reconciles first; in
  this session that writes \<open>SGR0\<close>, \<open>SGR\<close>, clear-screen and a flush to the terminal and
  clears the front buffer.
\<close>

theorem tb_clear_pending_counterexample:
  "map_option tty_log (returned (tb_clear ex_sys (sigwinch_handler ex_session))) =
     Some [Fputs T_SGR0, Fprintf T_SGR 7 0, Fputs T_CLEAR_SCREEN, Fflush] \<and>
   tty_log (sigwinch_handler ex_session) = [] \<and>
   map_option front_buffer (returned (tb_clear ex_sys (sigwinch_handler ex_session))) =
     Some (ex_buf\<lparr>cells := [blank, blank]\<rparr>) \<and>
   front_buffer (sigwinch_handler ex_session) = ex_buf \<and>
   ex_buf \<noteq> ex_buf\<lparr>cells := [blank, blank]\<rparr>"
proof -
  have ok2: "cellbuf_ok (ex_buf\<lparr>cells := [blank, blank]\<rparr>)"
    by (simp add: cellbuf_ok_def ex_buf_def)
  have "check_sigwinch ex_sys (sigwinch_handler ex_session) =
          Inr ((send_clear ((sigwinch_handler ex_session)
                              \<lparr>front_buffer := ex_buf\<lparr>cells := [blank, blank]\<rparr>\<rparr>))
                 \<lparr>sigwinch_r := 0\<rparr>)"
    using cellbuf_clear_eq[OF ex_buf_ok]
    by (simp add: check_sigwinch_def sigwinch_handler_def update_term_size_def ex_sys_def
        cellbuf_resize_same ex_session_def ex_buf_simps)
  moreover have "ex_buf \<noteq> ex_buf\<lparr>cells := [blank, blank]\<rparr>"
    by (simp add: ex_buf_def ex_cell_def blank_def)
  ultimately show ?thesis
    using cellbuf_clear_eq[OF ex_buf_ok]
    by (simp add: tb_clear_def returned_def send_clear_def send_attr_def emit_def
        sigwinch_handler_def ex_session_def ex_buf_simps LAST_ATTR_INIT_def TB_WHITE_def
        TB_BLACK_def TB_BOLD_def ex_cell_def blank_def)
qed


section \<open>\<open>send_attr\<close> and the renderer caches\<close>

lemma bold_bit: "(a::u16) AND TB_BOLD \<noteq> 0 \<longleftrightarrow> bit a 4"
proof -
  have e: "TB_BOLD = (2::u16) ^ 4" by (simp add: TB_BOLD_def)
  show ?thesis by (subst e) (simp only: and_exp_eq_0_iff_not_bit not_not)
qed

text \<open>
  Claim C4, amended. When the pair \<open>(fg, bg)\<close> differs from the cached pair,
  \<open>send_attr\<close> emits \<open>SGR0\<close>, then \<open>SGR(fg & 0x0F, bg & 0x0F)\<close>, then the \<open>BOLD\<close> string
  exactly when \<open>fg\<close> has bit \<open>0x10\<close> (\<open>TB_BOLD\<close>) set, then the \<open>BLINK\<close> string exactly when
  \<open>bg\<close> has bit \<open>0x10\<close> (\<open>TB_BOLD\<close>) set, and caches the pair.
\<close>

theorem send_attr_emits:
  assumes "fg' \<noteq> lastfg s \<or> bg' \<noteq> lastbg s"
  shows "tty_log (send_attr fg' bg' s) =
           tty_log s @ [Fputs T_SGR0, Fprintf T_SGR (ucast (fg' AND 0x0F)) (ucast (bg' AND 0x0F))]
             @ (if bit fg' 4 then [Fputs T_BOLD] else [])
             @ (if bit bg' 4 then [Fputs T_BLINK] else []) \<and>
         lastfg (send_attr fg' bg' s) = fg' \<and> lastbg (send_attr fg' bg' s) = bg'"
  using assms by (auto simp: send_attr_def emit_def bold_bit)

theorem send_attr_emits_witness:
  "(0x17::u16) \<noteq> lastfg ex_session \<and> (0x10::u16) \<noteq> lastbg ex_session \<and>
   tty_log (send_attr 0x17 0x10 ex_session) =
     [Fputs T_SGR0, Fprintf T_SGR 7 0, Fputs T_BOLD, Fputs T_BLINK] \<and>
   lastfg (send_attr 0x17 0x10 ex_session) = 0x17 \<and>
   lastbg (send_attr 0x17 0x10 ex_session) = 0x10"
proof -
  have h: "(0x17::u16) \<noteq> lastfg ex_session \<or> (0x10::u16) \<noteq> lastbg ex_session"
    by (simp add: ex_session_simps LAST_ATTR_INIT_def)
  have b: "bit (0x17::u16) 4" "bit (0x10::u16) 4"
    by (simp_all add: bit_iff_odd)
  from send_attr_emits[OF h] show ?thesis
    using b by (simp add: ex_session_simps LAST_ATTR_INIT_def)
qed

text \<open>
  Claim C4 as stated fails on the \<open>BLINK\<close> bit: with \<open>bg = 0x40\<close> (\<open>TB_BLINK\<close> set) no
  \<open>BLINK\<close> string is emitted, and with \<open>bg = 0x10\<close> (\<open>TB_BLINK\<close> not set) it is.
\<close>

theorem send_attr_blink_counterexample:
  "(0x40::u16) AND TB_BLINK \<noteq> 0 \<and>
   (0x07::u16) \<noteq> lastfg ex_session \<and> (0x40::u16) \<noteq> lastbg ex_session \<and>
   tty_log (send_attr 0x07 0x40 ex_session) = [Fputs T_SGR0, Fprintf T_SGR 7 0] \<and>
   (0x10::u16) AND TB_BLINK = 0 \<and>
   tty_log (send_attr 0x07 0x10 ex_session) =
     [Fputs T_SGR0, Fprintf T_SGR 7 0, Fputs T_BLINK]"
  by (simp add: send_attr_def emit_def ex_session_simps LAST_ATTR_INIT_def TB_BLINK_def
      TB_BOLD_def)

lemma tb_init_session_caches:
  "tb_init_session T sy s = Inr s' \<Longrightarrow> caches s' = caches s"
  by (auto simp: tb_init_session_def Let_def emit_def update_term_size_def caches_def
      split: sum.splits prod.splits)

lemma tb_init_session_returns:
  assumes "malloc_back sy = Some jb" and "malloc_front sy = Some jf"
  shows "\<exists>s'. tb_init_session T sy s = Inr s'"
proof -
  obtain c r where cr: "ioctl_winsize sy = (c, r)" by (cases "ioctl_winsize sy")
  let ?w = "ucast c :: u32" and ?h = "ucast r :: u32"
  have n: "malloc_cells ?w ?h = unat ?w * unat ?h" by (rule malloc_cells_eq[OF winsize_fits])
  have ok: "cellbuf_ok (b\<lparr>cells := map j [0..<unat ?w * unat ?h], width := ?w, height := ?h\<rparr>)"
    for b j using winsize_fits[of c r] by (simp add: cellbuf_ok_def)
  show ?thesis
    using assms cellbuf_clear_eq[OF ok]
    by (simp add: tb_init_session_def Let_def update_term_size_def cr emit_def
        cellbuf_init_def n)
qed

text \<open>
  Claim C5, amended. Resize reconciliation leaves the attribute caches
  \<open>(lastfg, lastbg)\<close> at \<open>(TB_WHITE, TB_BLACK)\<close>, the pair that \<open>send_clear\<close> passes to
  \<open>send_attr\<close>; \<open>tb_init\<close> and \<open>tb_shutdown\<close> leave all four caches as they were.
  (Both \<open>malloc\<close>s are taken to succeed.)
\<close>

theorem caches_after_resize_init_shutdown:
  assumes "malloc_back sy = Some jb" and "malloc_front sy = Some jf"
  shows "(session_ok s \<and> sigwinch_r s \<noteq> 0 \<longrightarrow>
            (\<exists>s'. check_sigwinch sy s = Inr s' \<and>
               lastfg s' = TB_WHITE \<and> lastbg s' = TB_BLACK)) \<and>
         (\<exists>rc s'. tb_init T sy s = Inr (rc, s') \<and> caches s' = caches s) \<and>
         caches (tb_shutdown T s) = caches s"
proof (intro conjI impI)
  assume a: "session_ok s \<and> sigwinch_r s \<noteq> 0"
  from check_sigwinch_pending[OF _ _ assms, of s] a
  show "\<exists>s'. check_sigwinch sy s = Inr s' \<and> lastfg s' = TB_WHITE \<and> lastbg s' = TB_BLACK"
    by (auto simp: send_clear_frame)
next
  let ?s1 = "s\<lparr>out_file := fopen_w sy, in_file := fopen_r sy\<rparr>"
  show "\<exists>rc s'. tb_init T sy s = Inr (rc, s') \<and> caches s' = caches s"
  proof (cases "fopen_w sy")
    case None
    then show ?thesis by (simp add: tb_init_def caches_def)
  next
    case (Some fo)
    note fo = this
    show ?thesis
    proof (cases "fopen_r sy")
      case None
      then show ?thesis using fo by (simp add: tb_init_def caches_def)
    next
      case (Some fi)
      let ?s2 = "?s1\<lparr>out_fileno := fileno sy fo, in_fileno := fileno sy fi\<rparr>"
      from tb_init_session_returns[OF assms, of T ?s2] obtain s3 where
        s3: "tb_init_session T sy ?s2 = Inr s3" by blast
      from tb_init_session_caches[OF s3] have "caches s3 = caches s" by (simp add: caches_def)
      then show ?thesis using fo Some s3 by (simp add: tb_init_def Let_def caches_def)
    qed
  qed
next
  show "caches (tb_shutdown T s) = caches s"
    by (simp add: tb_shutdown_def Let_def emit_def caches_def)
qed


theorem caches_after_resize_init_shutdown_witness:
  "malloc_back ex_sys = Some ex_junk \<and> malloc_front ex_sys = Some ex_junk \<and>
   session_ok (sigwinch_handler ex_session) \<and> sigwinch_r (sigwinch_handler ex_session) \<noteq> 0 \<and>
   map_option lastfg (returned (check_sigwinch ex_sys (sigwinch_handler ex_session))) =
     Some TB_WHITE \<and>
   map_option lastbg (returned (check_sigwinch ex_sys (sigwinch_handler ex_session))) =
     Some TB_BLACK \<and>
   map_option caches (map_option snd (returned (tb_init ex_term_h ex_sys ex_start))) =
     Some (caches ex_start) \<and>
   caches (tb_shutdown ex_term_h ex_session) = caches ex_session"
proof -
  note inst = caches_after_resize_init_shutdown[OF ex_sys_malloc]
  from inst[of "sigwinch_handler ex_session" ex_term_h] ex_pending_ok obtain s' where
    "check_sigwinch ex_sys (sigwinch_handler ex_session) = Inr s'"
    "lastfg s' = TB_WHITE" "lastbg s' = TB_BLACK"
    by blast
  then have a:
    "map_option lastfg (returned (check_sigwinch ex_sys (sigwinch_handler ex_session))) =
       Some TB_WHITE"
    "map_option lastbg (returned (check_sigwinch ex_sys (sigwinch_handler ex_session))) =
       Some TB_BLACK"
    by (simp_all add: returned_def)
  from inst[of ex_start ex_term_h] obtain rc s2 where
    "tb_init ex_term_h ex_sys ex_start = Inr (rc, s2)" "caches s2 = caches ex_start"
    by blast
  then have b: "map_option caches (map_option snd (returned (tb_init ex_term_h ex_sys ex_start))) =
     Some (caches ex_start)"
    by (simp add: returned_def)
  from inst[of ex_session ex_term_h]
  have c: "caches (tb_shutdown ex_term_h ex_session) = caches ex_session" by blast
  show ?thesis using a b c ex_pending_ok ex_sys_malloc by simp
qed

text \<open>
  Claim C5 as stated fails: after a resize reconciliation the attribute caches hold
  \<open>(TB_WHITE, TB_BLACK)\<close>, not the sentinel \<open>0xFFFF\<close>, and \<open>tb_shutdown\<close> leaves in the
  caches what the last \<open>tb_present\<close> left there.
\<close>

theorem caches_not_reset_counterexample:
  "map_option lastfg (returned (check_sigwinch ex_sys (sigwinch_handler ex_session))) =
     Some TB_WHITE \<and>
   map_option lastbg (returned (check_sigwinch ex_sys (sigwinch_handler ex_session))) =
     Some TB_BLACK \<and>
   TB_WHITE \<noteq> LAST_ATTR_INIT \<and> TB_BLACK \<noteq> LAST_ATTR_INIT \<and>
   caches (tb_shutdown ex_term_h
             (ex_session\<lparr>lastfg := TB_WHITE, lastbg := TB_BLACK, lastx := 1, lasty := 0\<rparr>)) =
     (TB_WHITE, TB_BLACK, 1, 0) \<and>
   (1::u32) \<noteq> LAST_COORD_INIT \<and> (0::u32) \<noteq> LAST_COORD_INIT"
proof -
  from check_sigwinch_pending[OF ex_pending_ok ex_sys_malloc] obtain s' where
    "check_sigwinch ex_sys (sigwinch_handler ex_session) = Inr s'"
    "lastfg s' = TB_WHITE" "lastbg s' = TB_BLACK"
    by (auto simp: send_clear_frame)
  then show ?thesis
    by (simp add: returned_def tb_shutdown_def Let_def emit_def caches_def
        TB_WHITE_def TB_BLACK_def LAST_ATTR_INIT_def LAST_COORD_INIT_def)
qed

text \<open>
  The cursor caches \<open>lastx\<close> and \<open>lasty\<close> are not written by the reconciliation either,
  although it clears the screen. Here the frame before the resize ended at \<open>(0, 0)\<close>; the
  \<open>tb_present\<close> that reconciles finds its first differing cell at \<open>(1, 0)\<close> and writes
  \<open>B\<close> right after the clear-screen, with no cursor movement, while it records \<open>B\<close> in
  column 1 of the front buffer.
\<close>

lemma resize_stale_cursor:
  "map_option tty_log (returned (tb_present ex_sys ex_stale)) =
     Some [Fputs T_CLEAR_SCREEN, Fflush, Fputs_buf [0x42], Fflush] \<and>
   map_option front_buffer (returned (tb_present ex_sys ex_stale)) =
     Some (ex_buf\<lparr>cells := [blank, ex_cell 0x42]\<rparr>)"
proof -
  have ok2: "cellbuf_ok (ex_buf\<lparr>cells := [ex_cell 0x58, blank]\<rparr>)"
    by (simp add: cellbuf_ok_def ex_buf_def)
  have chk: "check_sigwinch ex_sys ex_stale =
          Inr (ex_stale\<lparr>front_buffer := ex_buf\<lparr>cells := [blank, blank]\<rparr>,
                 tty_log := [Fputs T_CLEAR_SCREEN, Fflush], sigwinch_r := 0\<rparr>)"
    using cellbuf_clear_eq[OF ok2]
    by (simp add: check_sigwinch_def update_term_size_def ex_sys_def cellbuf_resize_same
        ex_stale_def ex_session_def ex_buf_simps send_clear_def send_attr_def emit_def)
  have enc: "utf8_unicode_to_char 0x42 = [0x42]"
    by (simp add: utf8_unicode_to_char_def utf8_first_len_def)
  let ?s1 = "ex_stale\<lparr>front_buffer := ex_buf\<lparr>cells := [blank, blank]\<rparr>,
                       tty_log := [Fputs T_CLEAR_SCREEN, Fflush], sigwinch_r := 0\<rparr>"
  have rows: "for_each [0..<unat (height (front_buffer ?s1))] present_row ?s1 =
          Inr (ex_stale\<lparr>front_buffer := ex_buf\<lparr>cells := [blank, ex_cell 0x42]\<rparr>,
                 tty_log := [Fputs T_CLEAR_SCREEN, Fflush, Fputs_buf [0x42]],
                 sigwinch_r := 0, lastx := 1, lasty := 0\<rparr>)"
    by (simp add: present_row_def present_cell_def Let_def
        CELL_def cell_read_def send_attr_def send_char_def emit_def enc upt_conv_Cons
        ex_stale_def ex_session_def ex_buf_def ex_cell_def blank_def
        TB_WHITE_def TB_BLACK_def)
  have "tb_present ex_sys ex_stale =
          Inr (emit [Fflush]
                 (ex_stale\<lparr>front_buffer := ex_buf\<lparr>cells := [blank, ex_cell 0x42]\<rparr>,
                    tty_log := [Fputs T_CLEAR_SCREEN, Fflush, Fputs_buf [0x42]],
                    sigwinch_r := 0, lastx := 1, lasty := 0\<rparr>))"
    by (simp only: tb_present_def chk rows sum.case)
  then show ?thesis
    by (simp add: returned_def emit_def)
qed

section \<open>\<open>tb_init\<close>\<close>

text \<open>
  Claim C6, amended. A failing \<open>tb_init\<close> leaves the buffers, the ring, the saved
  termios, the terminal size and the caches as they were and writes nothing to the
  terminal, but it leaves in \<open>out\<close> and \<open>in\<close> the results of the two \<open>fopen\<close> calls and,
  when it fails with \<open>TB_EUNSUPPORTED_TERMINAL\<close>, in \<open>out_fileno\<close> and \<open>in_fileno\<close> the
  descriptors of the two streams.
\<close>

theorem tb_init_failure_state:
  "(fopen_w sy = None \<or> fopen_r sy = None \<longrightarrow>
      tb_init T sy s =
        Inr (TB_EFAILED_TO_OPEN_TTY, s\<lparr>out_file := fopen_w sy, in_file := fopen_r sy\<rparr>)) \<and>
   (fopen_w sy = Some fo \<and> fopen_r sy = Some fi \<and> init_term sy < 0 \<longrightarrow>
      tb_init T sy s =
        Inr (TB_EUNSUPPORTED_TERMINAL,
             s\<lparr>out_file := Some fo, in_file := Some fi,
               out_fileno := fileno sy fo, in_fileno := fileno sy fi\<rparr>)) \<and>
   (tb_init T sy s = Inr (rc, s') \<and> rc \<noteq> 0 \<longrightarrow>
      back_buffer s' = back_buffer s \<and> front_buffer s' = front_buffer s \<and>
      inbuf s' = inbuf s \<and> orig_tios s' = orig_tios s \<and>
      termw s' = termw s \<and> termh s' = termh s \<and> caches s' = caches s \<and>
      tty_log s' = tty_log s \<and>
      out_file s' = fopen_w sy \<and> in_file s' = fopen_r sy)"
proof -
  have p1: "tb_init T sy s =
        Inr (TB_EFAILED_TO_OPEN_TTY, s\<lparr>out_file := fopen_w sy, in_file := fopen_r sy\<rparr>)"
    if "fopen_w sy = None \<or> fopen_r sy = None"
    using that by (cases "fopen_w sy"; cases "fopen_r sy") (simp_all add: tb_init_def)
  have p2: "tb_init T sy s =
        Inr (TB_EUNSUPPORTED_TERMINAL,
             s\<lparr>out_file := Some fo, in_file := Some fi,
               out_fileno := fileno sy fo, in_fileno := fileno sy fi\<rparr>)"
    if "fopen_w sy = Some fo \<and> fopen_r sy = Some fi \<and> init_term sy < 0"
    using that by (simp add: tb_init_def)
  have p3: "back_buffer s' = back_buffer s \<and> front_buffer s' = front_buffer s \<and>
      inbuf s' = inbuf s \<and> orig_tios s' = orig_tios s \<and>
      termw s' = termw s \<and> termh s' = termh s \<and> caches s' = caches s \<and>
      tty_log s' = tty_log s \<and>
      out_file s' = fopen_w sy \<and> in_file s' = fopen_r sy"
    if a: "tb_init T sy s = Inr (rc, s') \<and> rc \<noteq> 0"
  proof -
    from a have "s' = s\<lparr>out_file := fopen_w sy, in_file := fopen_r sy\<rparr> \<or>
             (\<exists>fo fi. s' = s\<lparr>out_file := fopen_w sy, in_file := fopen_r sy,
                              out_fileno := fileno sy fo, in_fileno := fileno sy fi\<rparr>)"
      by (cases "fopen_w sy"; cases "fopen_r sy")
        (auto simp: tb_init_def Let_def split: if_splits sum.splits)
    then show ?thesis by (auto simp: caches_def)
  qed
  from p1 p2 p3 show ?thesis by blast
qed

theorem tb_init_failure_state_witness:
  "(fopen_w (ex_sys\<lparr>fopen_r := None\<rparr>) = None \<or> fopen_r (ex_sys\<lparr>fopen_r := None\<rparr>) = None) \<and>
   tb_init ex_term_h (ex_sys\<lparr>fopen_r := None\<rparr>) ex_start =
     Inr (TB_EFAILED_TO_OPEN_TTY, ex_start\<lparr>out_file := Some 1, in_file := None\<rparr>) \<and>
   fopen_w (ex_sys\<lparr>init_term := - 1\<rparr>) = Some 1 \<and>
   fopen_r (ex_sys\<lparr>init_term := - 1\<rparr>) = Some 2 \<and>
   init_term (ex_sys\<lparr>init_term := - 1\<rparr>) < 0 \<and>
   tb_init ex_term_h (ex_sys\<lparr>init_term := - 1\<rparr>) ex_start =
     Inr (TB_EUNSUPPORTED_TERMINAL,
          ex_start\<lparr>out_file := Some 1, in_file := Some 2, out_fileno := 3, in_fileno := 4\<rparr>) \<and>
   TB_EUNSUPPORTED_TERMINAL \<noteq> 0 \<and>
   back_buffer (ex_start\<lparr>out_file := Some 1, in_file := Some 2, out_fileno := 3,
                          in_fileno := 4\<rparr>) = back_buffer ex_start"
proof -
  let ?sy1 = "ex_sys\<lparr>fopen_r := None\<rparr>" and ?sy2 = "ex_sys\<lparr>init_term := - 1\<rparr>"
  let ?s2 = "ex_start\<lparr>out_file := Some 1, in_file := Some 2, out_fileno := 3, in_fileno := 4\<rparr>"
  have h1: "fopen_w ?sy1 = None \<or> fopen_r ?sy1 = None" by simp
  have h2: "fopen_w ?sy2 = Some 1 \<and> fopen_r ?sy2 = Some 2 \<and> init_term ?sy2 < 0"
    by (simp add: ex_sys_def)
  have ne: "TB_EUNSUPPORTED_TERMINAL \<noteq> 0" by (simp add: TB_EUNSUPPORTED_TERMINAL_def)
  from tb_init_failure_state[where sy = ?sy1 and T = ex_term_h and s = ex_start] h1
  have a: "tb_init ex_term_h ?sy1 ex_start =
     Inr (TB_EFAILED_TO_OPEN_TTY, ex_start\<lparr>out_file := Some 1, in_file := None\<rparr>)"
    by (simp add: ex_sys_def)
  from tb_init_failure_state[where sy = ?sy2 and T = ex_term_h and s = ex_start and fo = 1 and fi = 2] h2
  have b: "tb_init ex_term_h ?sy2 ex_start = Inr (TB_EUNSUPPORTED_TERMINAL, ?s2)"
    by (simp add: ex_sys_def)
  from tb_init_failure_state[where sy = ?sy2 and T = ex_term_h and s = ex_start and rc = TB_EUNSUPPORTED_TERMINAL and s' = ?s2] b ne
  have c: "back_buffer ?s2 = back_buffer ex_start" by blast
  show ?thesis using h1 h2 a b c ne by simp
qed

text \<open>
  Claim C6 as stated fails: after \<open>tb_init\<close> has failed with
  \<open>TB_EUNSUPPORTED_TERMINAL\<close>, the handles and the descriptor numbers, unset before the
  call, are set.
\<close>

theorem tb_init_failure_counterexample:
  "tb_init ex_term_h (ex_sys\<lparr>init_term := - 1\<rparr>) ex_start =
     Inr (TB_EUNSUPPORTED_TERMINAL,
          ex_start\<lparr>out_file := Some 1, in_file := Some 2, out_fileno := 3, in_fileno := 4\<rparr>) \<and>
   out_file ex_start = None \<and> in_file ex_start = None \<and>
   out_fileno ex_start = 0 \<and> in_fileno ex_start = 0"
  by (simp add: tb_init_def ex_sys_def ex_start_def)

section \<open>Event loop\<close>

lemma wait_loop_idle_rounds:
  assumes "\<forall>r \<in> set pre. r = Select_read [] \<or> r = Select_unset"
  shows "wait_loop T (pre @ rs) event s = wait_loop T rs event s"
  using assms by (induction pre) auto

text \<open>
  Claim C7. In the loop of \<open>wait_fill_event\<close>, a round whose read returns \<open>r > 0\<close>
  bytes while the free space of the ring is less than \<open>r\<close> makes the function return
  \<open>-1\<close>; the bytes read are not pushed and the session \<open>s\<close>, with its ring, is as it
  was when the round began. So it is for a call of \<open>wait_fill_event\<close> on a session
  \<open>s0\<close> whose first \<open>extract_event\<close> found no event and left the ring of \<open>s\<close>, when the
  rounds before were empty reads.
\<close>

theorem wait_fill_event_overflow:
  assumes "0 < length buf"
    and "ringbuffer_free_space T (inbuf s) < int (length buf)"
  shows "wait_loop T (Select_read buf # rs) event s = Some (- 1, event, s) \<and>
         (\<forall>s0 res ev pre.
            extract_event T \<lparr>ev_ch = 0, ev_key = 0, ev_mod = 0\<rparr> (inbuf s0) (inputmode s0)
              = (res, ev, inbuf s) \<and> res \<noteq> 0 \<and> s = s0\<lparr>inbuf := inbuf s\<rparr> \<and>
            (\<forall>r \<in> set pre. r = Select_read [] \<or> r = Select_unset) \<longrightarrow>
            wait_fill_event T (pre @ Select_read buf # rs) s0 = Some (- 1, ev, s))"
proof
  show loop: "wait_loop T (Select_read buf # rs) event s = Some (- 1, event, s)" for event
    using assms by simp
  show "\<forall>s0 res ev pre.
            extract_event T \<lparr>ev_ch = 0, ev_key = 0, ev_mod = 0\<rparr> (inbuf s0) (inputmode s0)
              = (res, ev, inbuf s) \<and> res \<noteq> 0 \<and> s = s0\<lparr>inbuf := inbuf s\<rparr> \<and>
            (\<forall>r \<in> set pre. r = Select_read [] \<or> r = Select_unset) \<longrightarrow>
            wait_fill_event T (pre @ Select_read buf # rs) s0 = Some (- 1, ev, s)"
  proof (intro allI impI)
    fix s0 res ev pre
    assume a: "extract_event T \<lparr>ev_ch = 0, ev_key = 0, ev_mod = 0\<rparr> (inbuf s0) (inputmode s0)
              = (res, ev, inbuf s) \<and> res \<noteq> 0 \<and> s = s0\<lparr>inbuf := inbuf s\<rparr> \<and>
            (\<forall>r \<in> set pre. r = Select_read [] \<or> r = Select_unset)"
    then have "wait_fill_event T (pre @ Select_read buf # rs) s0 =
                 wait_loop T (pre @ Select_read buf # rs) ev (s0\<lparr>inbuf := inbuf s\<rparr>)"
      by (simp add: wait_fill_event_def)
    also have "\<dots> = wait_loop T (Select_read buf # rs) ev s"
      using a wait_loop_idle_rounds[of pre T "Select_read buf # rs" ev s] by simp
    finally show "wait_fill_event T (pre @ Select_read buf # rs) s0 = Some (- 1, ev, s)"
      using loop by simp
  qed
qed

theorem wait_fill_event_overflow_witness:
  "0 < length [0x3B, 0x35 :: u8] \<and>
   ringbuffer_free_space ex_term_h (inbuf ex_session) < int (length [0x3B, 0x35 :: u8]) \<and>
   wait_loop ex_term_h [Select_read [0x3B, 0x35]] \<lparr>ev_ch = 0, ev_key = 0, ev_mod = 0\<rparr> ex_session =
     Some (- 1, \<lparr>ev_ch = 0, ev_key = 0, ev_mod = 0\<rparr>, ex_session) \<and>
   wait_fill_event ex_term_h [Select_read [], Select_read [0x3B, 0x35]] ex_session =
     Some (- 1, \<lparr>ev_ch = 0, ev_key = 0, ev_mod = 0\<rparr>, ex_session)"
proof -
  let ?e0 = "\<lparr>ev_ch = 0, ev_key = 0, ev_mod = 0\<rparr>"
  have h1: "0 < length [0x3B, 0x35 :: u8]" by simp
  have h2: "ringbuffer_free_space ex_term_h (inbuf ex_session) < int (length [0x3B, 0x35 :: u8])"
    by (simp add: ex_term_h_def ex_session_simps)
  note inst = wait_fill_event_overflow[OF h1 h2, of "[]" ?e0]
  have ex: "extract_event ex_term_h ?e0 (inbuf ex_session) (inputmode ex_session)
              = (- 1, ?e0, inbuf ex_session)"
    by (simp add: ex_term_h_def)
  have neg: "(- 1 :: int) \<noteq> 0" by simp
  have same: "ex_session = ex_session\<lparr>inbuf := inbuf ex_session\<rparr>" by simp
  have pre: "\<forall>r \<in> set [Select_read []]. r = Select_read [] \<or> r = Select_unset" by simp
  from inst have a: "wait_loop ex_term_h [Select_read [0x3B, 0x35]] ?e0 ex_session =
     Some (- 1, ?e0, ex_session)" by (rule conjunct1)
  from inst have "extract_event ex_term_h ?e0 (inbuf ex_session) (inputmode ex_session)
              = (- 1, ?e0, inbuf ex_session) \<and> (- 1 :: int) \<noteq> 0 \<and>
            ex_session = ex_session\<lparr>inbuf := inbuf ex_session\<rparr> \<and>
            (\<forall>r \<in> set [Select_read []]. r = Select_read [] \<or> r = Select_unset) \<longrightarrow>
            wait_fill_event ex_term_h ([Select_read []] @ [Select_read [0x3B, 0x35]]) ex_session =
              Some (- 1, ?e0, ex_session)"
    by blast
  with ex neg same pre
  have b: "wait_fill_event ex_term_h ([Select_read []] @ [Select_read [0x3B, 0x35]]) ex_session =
     Some (- 1, ?e0, ex_session)"
    by blast
  show ?thesis using h1 h2 a b by simp
qed


section \<open>Writes to the back buffer\<close>

lemma session_okD:
  assumes "session_ok s"
  shows "cellbuf_ok (back_buffer s)" "cellbuf_ok (front_buffer s)"
    "width (front_buffer s) = width (back_buffer s)"
    "height (front_buffer s) = height (back_buffer s)"
    "unat (width (back_buffer s)) < 2 ^ 16" "unat (height (back_buffer s)) < 2 ^ 16"
    "length (cells (back_buffer s)) = unat (width (back_buffer s)) * unat (height (back_buffer s))"
    "length (cells (front_buffer s)) = unat (width (back_buffer s)) * unat (height (back_buffer s))"
    "unat (width (back_buffer s)) * unat (height (back_buffer s)) < 2 ^ 32"
  using assms by (simp_all add: session_ok_def cellbuf_ok_def)

text \<open>A write that changes only the cells of the back buffer, not their number, keeps
  the session well-formed.\<close>

lemma session_ok_back_cells:
  "session_ok s \<Longrightarrow> length cs = length (cells (back_buffer s)) \<Longrightarrow>
   session_ok (s\<lparr>back_buffer := (back_buffer s)\<lparr>cells := cs\<rparr>\<rparr>)"
  by (simp add: session_ok_def cellbuf_ok_def)

lemma tb_put_cell_in_bounds:
  assumes ok: "session_ok s" and x: "x < width (back_buffer s)" and y: "y < height (back_buffer s)"
  shows "tb_put_cell x y c s =
           Inr (s\<lparr>back_buffer := (back_buffer s)
                  \<lparr>cells := (cells (back_buffer s))
                     [unat y * unat (width (back_buffer s)) + unat x := c]\<rparr>\<rparr>)"
proof -
  have i: "CELL (back_buffer s) x y = unat y * unat (width (back_buffer s)) + unat x"
    using x y session_okD(9)[OF ok] by (intro CELL_nat) simp_all
  have "CELL (back_buffer s) x y < length (cells (back_buffer s))"
    using x y session_okD(1)[OF ok] by (rule CELL_in_range)
  then show ?thesis
    using x y by (simp add: tb_put_cell_def cell_write_def i not_le[symmetric])
qed

lemma blit_rows_returns:
  assumes "n = 0 \<or> (dst + (n - 1) * stride + w \<le> length mem \<and> src + n * w \<le> length cells')"
  shows "\<exists>mem'. blit_rows n dst src stride w cells' mem = Inr mem' \<and> length mem' = length mem"
  using assms
proof (induction n arbitrary: dst src mem)
  case 0
  then show ?case by simp
next
  case (Suc n)
  then have b: "dst + n * stride + w \<le> length mem" "src + w + n * w \<le> length cells'"
    by simp_all
  then have b0: "dst + w \<le> length mem" "src + w \<le> length cells'" by simp_all
  have "\<exists>mem1. memcpy_cells mem dst cells' src w = Inr mem1"
    using b0 by (simp add: memcpy_cells_def)
  then obtain mem1 where m1: "memcpy_cells mem dst cells' src w = Inr mem1" by blast
  have l1: "length mem1 = length mem" by (rule memcpy_length[OF m1])
  have "n = 0 \<or> (dst + stride + (n - 1) * stride + w \<le> length mem1 \<and>
                  src + w + n * w \<le> length cells')"
  proof (cases n)
    case 0
    then show ?thesis by simp
  next
    case (Suc k)
    then show ?thesis using b l1 by simp
  qed
  from Suc.IH[OF this] obtain mem' where
    "blit_rows n (dst + stride) (src + w) stride w cells' mem1 = Inr mem'"
    "length mem' = length mem1" by blast
  then show ?case using m1 l1 by simp
qed

text \<open>A blit within bounds returns, and changes nothing but cells of the back buffer:
  either it is dropped by the guard or its rows are copied.\<close>

lemma tb_blit_in_bounds:
  assumes ok: "session_ok s"
    and xw: "unat x + unat w \<le> unat (width (back_buffer s))"
    and yh: "unat y + unat h \<le> unat (height (back_buffer s))"
    and src: "unat w * unat h \<le> length cells'"
  shows "\<exists>cs. tb_blit x y w h cells' s = Inr (s\<lparr>back_buffer := (back_buffer s)\<lparr>cells := cs\<rparr>\<rparr>) \<and>
           length cs = length (cells (back_buffer s))"
proof (cases "x + w \<ge> width (back_buffer s) \<or> y + h \<ge> height (back_buffer s)")
  case True
  then have "tb_blit x y w h cells' s = Inr s" by (simp add: tb_blit_def)
  then show ?thesis by (intro exI[of _ "cells (back_buffer s)"]) simp
next
  case False
  let ?W = "unat (width (back_buffer s))" and ?H = "unat (height (back_buffer s))"
  note d = session_okD[OF ok]
  have W32: "?W < 2 ^ 32" and H32: "?H < 2 ^ 32" using d(5,6) by simp_all
  have xw': "unat (x + w) = unat x + unat w" using xw W32 by (simp add: unat_word_ariths)
  have yh': "unat (y + h) = unat y + unat h" using yh H32 by (simp add: unat_word_ariths)
  from False have lt: "unat x + unat w < ?W" "unat y + unat h < ?H"
    by (simp_all add: not_le word_less_nat_alt xw' yh')
  have h31: "\<not> 2 ^ 31 \<le> unat h" using lt(2) d(6) by simp
  have xlt: "x < width (back_buffer s)" and ylt: "y < height (back_buffer s)"
    using lt by (simp_all add: word_less_nat_alt)
  have i: "CELL (back_buffer s) x y = unat y * ?W + unat x"
    using xlt ylt d(9) by (intro CELL_nat) simp_all
  have rows: "unat h = 0 \<or>
        (unat y * ?W + unat x + (unat h - 1) * ?W + unat w \<le> length (cells (back_buffer s)) \<and>
         0 + unat h * unat w \<le> length cells')"
  proof (cases "unat h")
    case 0
    then show ?thesis by simp
  next
    case (Suc k)
    have "unat y * ?W + unat x + k * ?W + unat w = (unat y + k) * ?W + (unat x + unat w)"
      by (simp add: add_mult_distrib)
    also have "\<dots> \<le> ?W * ?H"
      using lt Suc by (intro row_end_le) simp_all
    finally show ?thesis using Suc src d(7) by (simp add: mult.commute)
  qed
  from blit_rows_returns[OF rows] obtain cs where
    "blit_rows (unat h) (unat y * ?W + unat x) 0 ?W (unat w) cells' (cells (back_buffer s)) = Inr cs"
    "length cs = length (cells (back_buffer s))" by blast
  then show ?thesis using False h31 by (intro exI[of _ cs]) (simp add: tb_blit_def i)
qed

lemma apply_write_in_bounds:
  assumes "session_ok s" and "in_bounds (back_buffer s) op"
  shows "\<exists>cs. apply_write op s = Inr (s\<lparr>back_buffer := (back_buffer s)\<lparr>cells := cs\<rparr>\<rparr>) \<and>
           length cs = length (cells (back_buffer s))"
proof (cases op)
  case (Put_cell x y c)
  then show ?thesis
    using assms tb_put_cell_in_bounds[OF assms(1), of x y c]
    by (intro exI[of _ "(cells (back_buffer s))[unat y * unat (width (back_buffer s)) + unat x := c]"])
      simp
next
  case (Change_cell x y ch' fg' bg')
  then show ?thesis
    using assms tb_put_cell_in_bounds[OF assms(1), of x y "\<lparr>ch = ch', fg = fg', bg = bg'\<rparr>"]
    by (intro exI[of _ "(cells (back_buffer s))[unat y * unat (width (back_buffer s)) + unat x
                           := \<lparr>ch = ch', fg = fg', bg = bg'\<rparr>]"])
      (simp add: tb_change_cell_def)
next
  case (Blit x y w h cells')
  then show ?thesis
    using assms tb_blit_in_bounds[OF assms(1), of x w y h cells'] by simp
qed

lemma run_writes_in_bounds:
  assumes "session_ok s" and "\<forall>op \<in> set ops. in_bounds (back_buffer s) op"
  shows "\<exists>cs. run_writes ops s = Inr (s\<lparr>back_buffer := (back_buffer s)\<lparr>cells := cs\<rparr>\<rparr>) \<and>
           length cs = length (cells (back_buffer s))"
  using assms
proof (induction ops arbitrary: s)
  case Nil
  then show ?case by (intro exI[of _ "cells (back_buffer s)"]) simp
next
  case (Cons op ops)
  from apply_write_in_bounds[OF Cons.prems(1), of op] Cons.prems(2) obtain cs where
    cs: "apply_write op s = Inr (s\<lparr>back_buffer := (back_buffer s)\<lparr>cells := cs\<rparr>\<rparr>)"
      "length cs = length (cells (back_buffer s))" by auto
  let ?s1 = "s\<lparr>back_buffer := (back_buffer s)\<lparr>cells := cs\<rparr>\<rparr>"
  have ok1: "session_ok ?s1" by (rule session_ok_back_cells[OF Cons.prems(1) cs(2)])
  have ib: "\<forall>op \<in> set ops. in_bounds (back_buffer ?s1) op"
  proof
    fix op' assume "op' \<in> set ops"
    then have "in_bounds (back_buffer s) op'" using Cons.prems(2) by simp
    then show "in_bounds (back_buffer ?s1) op'" by (cases op') simp_all
  qed
  from Cons.IH[OF ok1 ib] obtain cs' where
    "run_writes ops ?s1 = Inr (?s1\<lparr>back_buffer := (back_buffer ?s1)\<lparr>cells := cs'\<rparr>\<rparr>)"
    "length cs' = length (cells (back_buffer ?s1))" by blast
  then show ?case using cs by (intro exI[of _ cs']) simp
qed


text \<open>What the row loop of \<open>tb_blit\<close> leaves in the block, for a rectangle inside it.\<close>

lemma in_row_offset:
  assumes "c < (W::nat)" and "x + w \<le> W"
  shows "(y0 * W + x \<le> r * W + c \<and> r * W + c < y0 * W + x + w) \<longleftrightarrow>
         (r = y0 \<and> x \<le> c \<and> c < x + w)"
proof (cases r y0 rule: linorder_cases)
  case less
  then have "Suc r * W \<le> y0 * W" by (intro mult_le_mono1) simp
  then have "r * W + c < y0 * W + x" using assms(1) by simp
  with less show ?thesis by simp
next
  case equal
  then show ?thesis by auto
next
  case greater
  then have "Suc y0 * W \<le> r * W" by (intro mult_le_mono1) simp
  then have "y0 * W + x + w \<le> r * W + c" using assms(2) by simp
  with greater show ?thesis by simp
qed

lemma memcpy_row:
  assumes y0: "y0 < H" and xw: "x + w \<le> W" and len: "length mem = W * H"
    and src: "s + w \<le> length cells'"
  shows "\<exists>mem1. memcpy_cells mem (y0 * W + x) cells' s w = Inr mem1 \<and>
           length mem1 = length mem \<and>
           (\<forall>r c. r < H \<longrightarrow> c < W \<longrightarrow>
              mem1 ! (r * W + c) =
                (if r = y0 \<and> x \<le> c \<and> c < x + w then cells' ! (s + (c - x))
                 else mem ! (r * W + c)))"
proof (cases "w = 0")
  case True
  then show ?thesis by (auto simp: memcpy_cells_def)
next
  case False
  have dn: "y0 * W + x + w \<le> length mem"
    using row_end_le[OF y0 xw] len by (simp add: add.assoc)
  let ?m = "take (y0 * W + x) mem @ take w (drop s cells') @ drop (y0 * W + x + w) mem"
  have step: "memcpy_cells mem (y0 * W + x) cells' s w = Inr ?m"
    using False dn src by (simp add: memcpy_cells_def)
  have lm: "length ?m = length mem" using dn src by simp
  have "?m ! (r * W + c) =
          (if r = y0 \<and> x \<le> c \<and> c < x + w then cells' ! (s + (c - x)) else mem ! (r * W + c))"
    if r: "r < H" and c: "c < W" for r c
  proof -
    have k: "r * W + c < length mem"
    proof -
      have "r * W + c < r * W + W" using c by simp
      also have "\<dots> \<le> W * H" using row_end_le[OF r, of W W] by simp
      finally show ?thesis using len by simp
    qed
    have "?m ! (r * W + c) =
            (if y0 * W + x \<le> r * W + c \<and> r * W + c < y0 * W + x + w
             then cells' ! (s + (r * W + c - (y0 * W + x))) else mem ! (r * W + c))"
      by (rule memcpy_nth[OF dn src k])
    also have "\<dots> = (if r = y0 \<and> x \<le> c \<and> c < x + w then cells' ! (s + (c - x))
                      else mem ! (r * W + c))"
      using in_row_offset[OF c xw, of y0 r] by auto
    finally show ?thesis .
  qed
  then show ?thesis using step lm by (intro exI[of _ ?m]) simp
qed

lemma blit_rows_cells:
  assumes "y0 + n \<le> H" and "x + w \<le> W" and "length mem = W * H"
    and "(j0 + n) * w \<le> length cells'"
  shows "\<exists>mem'. blit_rows n (y0 * W + x) (j0 * w) W w cells' mem = Inr mem' \<and>
           length mem' = length mem \<and>
           (\<forall>r c. r < H \<longrightarrow> c < W \<longrightarrow>
              mem' ! (r * W + c) =
                (if y0 \<le> r \<and> r < y0 + n \<and> x \<le> c \<and> c < x + w
                 then cells' ! ((j0 + (r - y0)) * w + (c - x))
                 else mem ! (r * W + c)))"
  using assms
proof (induction n arbitrary: y0 j0 mem)
  case 0
  then show ?case by auto
next
  case (Suc n)
  have y0: "y0 < H" using Suc.prems(1) by simp
  have "j0 * w + w = Suc j0 * w" by simp
  also have "\<dots> \<le> (j0 + Suc n) * w" by (intro mult_le_mono1) simp
  also have "\<dots> \<le> length cells'" by (rule Suc.prems(4))
  finally have src: "j0 * w + w \<le> length cells'" .
  from memcpy_row[OF y0 Suc.prems(2,3) src] obtain mem1 where
    m1: "memcpy_cells mem (y0 * W + x) cells' (j0 * w) w = Inr mem1"
    and l1: "length mem1 = length mem"
    and v1: "\<And>r c. r < H \<Longrightarrow> c < W \<Longrightarrow>
              mem1 ! (r * W + c) =
                (if r = y0 \<and> x \<le> c \<and> c < x + w then cells' ! (j0 * w + (c - x))
                 else mem ! (r * W + c))"
    by blast
  have p1: "Suc y0 + n \<le> H" using Suc.prems(1) by simp
  have p3: "length mem1 = W * H" using l1 Suc.prems(3) by simp
  have p4: "(Suc j0 + n) * w \<le> length cells'" using Suc.prems(4) by simp
  from Suc.IH[OF p1 Suc.prems(2) p3 p4] obtain mem' where
    r: "blit_rows n (Suc y0 * W + x) (Suc j0 * w) W w cells' mem1 = Inr mem'"
    and l: "length mem' = length mem1"
    and v: "\<And>r c. r < H \<Longrightarrow> c < W \<Longrightarrow>
              mem' ! (r * W + c) =
                (if Suc y0 \<le> r \<and> r < Suc y0 + n \<and> x \<le> c \<and> c < x + w
                 then cells' ! ((Suc j0 + (r - Suc y0)) * w + (c - x))
                 else mem1 ! (r * W + c))"
    by blast
  have e1: "y0 * W + x + W = Suc y0 * W + x" and e2: "j0 * w + w = Suc j0 * w" by simp_all
  have run: "blit_rows (Suc n) (y0 * W + x) (j0 * w) W w cells' mem = Inr mem'"
    using m1 r by (simp only: blit_rows.simps e1 e2 sum.case)
  have "mem' ! (r * W + c) =
          (if y0 \<le> r \<and> r < y0 + Suc n \<and> x \<le> c \<and> c < x + w
           then cells' ! ((j0 + (r - y0)) * w + (c - x))
           else mem ! (r * W + c))"
    if rr: "r < H" and cc: "c < W" for r c
  proof (cases "Suc y0 \<le> r")
    case True
    then have "Suc j0 + (r - Suc y0) = j0 + (r - y0)" by simp
    then show ?thesis using v[OF rr cc] v1[OF rr cc] True by auto
  next
    case False
    then show ?thesis using v[OF rr cc] v1[OF rr cc] by auto
  qed
  then show ?case using run l l1 by (intro exI[of _ mem']) simp
qed

text \<open>
  The part of claim C2 that the code keeps: a rectangle strictly inside the back buffer
  (\<open>x + w < width\<close> and \<open>y + h < height\<close>) is copied row by row, cell \<open>(i, j)\<close> of the
  caller's array to position \<open>(x + i, y + j)\<close>, and no other cell changes.
\<close>

lemma tb_blit_inside:
  assumes ok: "session_ok s"
    and xw: "unat x + unat w < unat (width (back_buffer s))"
    and yh: "unat y + unat h < unat (height (back_buffer s))"
    and src: "unat w * unat h \<le> length cells'"
  shows "\<exists>cs. tb_blit x y w h cells' s = Inr (s\<lparr>back_buffer := (back_buffer s)\<lparr>cells := cs\<rparr>\<rparr>) \<and>
           length cs = length (cells (back_buffer s)) \<and>
           (\<forall>r c. r < unat (height (back_buffer s)) \<longrightarrow> c < unat (width (back_buffer s)) \<longrightarrow>
              cs ! (r * unat (width (back_buffer s)) + c) =
                (if unat y \<le> r \<and> r < unat y + unat h \<and> unat x \<le> c \<and> c < unat x + unat w
                 then cells' ! ((r - unat y) * unat w + (c - unat x))
                 else cells (back_buffer s) ! (r * unat (width (back_buffer s)) + c)))"
proof -
  let ?W = "unat (width (back_buffer s))" and ?H = "unat (height (back_buffer s))"
  note d = session_okD[OF ok]
  have W32: "?W < 2 ^ 32" and H32: "?H < 2 ^ 32" using d(5,6) by simp_all
  have xw': "unat (x + w) = unat x + unat w" using xw W32 by (simp add: unat_word_ariths)
  have yh': "unat (y + h) = unat y + unat h" using yh H32 by (simp add: unat_word_ariths)
  have guard: "\<not> (x + w \<ge> width (back_buffer s) \<or> y + h \<ge> height (back_buffer s))"
    using xw yh by (simp add: not_le word_less_nat_alt xw' yh')
  have h31: "\<not> 2 ^ 31 \<le> unat h" using yh d(6) by simp
  have xlt: "x < width (back_buffer s)" and ylt: "y < height (back_buffer s)"
    using xw yh by (simp_all add: word_less_nat_alt)
  have i: "CELL (back_buffer s) x y = unat y * ?W + unat x"
    using xlt ylt d(9) by (intro CELL_nat) simp_all
  have a1: "unat y + unat h \<le> ?H" and a2: "unat x + unat w \<le> ?W" using xw yh by simp_all
  have a3: "length (cells (back_buffer s)) = ?W * ?H" by (rule d(7))
  have a4: "(0 + unat h) * unat w \<le> length cells'" using src by (simp add: mult.commute)
  from blit_rows_cells[OF a1 a2 a3 a4] obtain cs where
    r: "blit_rows (unat h) (unat y * ?W + unat x) (0 * unat w) ?W (unat w) cells'
          (cells (back_buffer s)) = Inr cs"
    and l: "length cs = length (cells (back_buffer s))"
    and v: "\<forall>r c. r < ?H \<longrightarrow> c < ?W \<longrightarrow>
              cs ! (r * ?W + c) =
                (if unat y \<le> r \<and> r < unat y + unat h \<and> unat x \<le> c \<and> c < unat x + unat w
                 then cells' ! ((0 + (r - unat y)) * unat w + (c - unat x))
                 else cells (back_buffer s) ! (r * ?W + c))"
    by blast
  have "tb_blit x y w h cells' s = Inr (s\<lparr>back_buffer := (back_buffer s)\<lparr>cells := cs\<rparr>\<rparr>)"
    using guard h31 r by (simp add: tb_blit_def i)
  then show ?thesis using l v by (intro exI[of _ cs]) simp
qed


section \<open>\<open>tb_present\<close>\<close>

lemma same_shape_ok: "session_ok s \<Longrightarrow> same_shape s t \<Longrightarrow> session_ok t"
  by (simp add: session_ok_def same_shape_def cellbuf_ok_def)

lemma same_shape_refl: "same_shape s s"
  by (simp add: same_shape_def)

lemma same_shape_trans: "same_shape s t \<Longrightarrow> same_shape t u \<Longrightarrow> same_shape s u"
  by (simp add: same_shape_def)

text \<open>One position: afterwards the front cell is the back cell.\<close>

lemma present_cell_step:
  assumes ok: "session_ok s"
    and x: "x < unat (width (back_buffer s))" and y: "y < unat (height (back_buffer s))"
  shows "\<exists>s'. present_cell y x s = Inr s' \<and> same_shape s s' \<and>
           cells (front_buffer s') =
             (cells (front_buffer s))[y * unat (width (back_buffer s)) + x :=
                cells (back_buffer s) ! (y * unat (width (back_buffer s)) + x)]"
proof -
  let ?W = "unat (width (back_buffer s))" and ?H = "unat (height (back_buffer s))"
  let ?k = "y * ?W + x"
  note d = session_okD[OF ok]
  have bi: "CELL (back_buffer s) (of_nat x) (of_nat y) = ?k"
    unfolding CELL_def by (rule cell_index_u32[OF y x d(9)])
  have fi: "CELL (front_buffer s) (of_nat x) (of_nat y) = ?k"
    unfolding CELL_def d(3) by (rule cell_index_u32[OF y x d(9)])
  have "?k < ?k - x + ?W" using x by simp
  also have "\<dots> \<le> ?W * ?H" using row_end_le[OF y, of ?W ?W] by simp
  finally have k: "?k < length (cells (back_buffer s))" "?k < length (cells (front_buffer s))"
    using d(7,8) by simp_all
  show ?thesis
  proof (cases "cells (back_buffer s) ! ?k = cells (front_buffer s) ! ?k")
    case True
    then have "present_cell y x s = Inr s"
      using k by (simp add: present_cell_def Let_def bi fi cell_read_def)
    then show ?thesis using True by (intro exI[of _ s]) (simp add: same_shape_refl)
  next
    case False
    let ?b = "cells (back_buffer s) ! ?k"
    let ?s2 = "send_char (of_nat x) (of_nat y) (ch ?b) (send_attr (fg ?b) (bg ?b) s)"
    let ?s' = "?s2\<lparr>front_buffer := (front_buffer ?s2)\<lparr>cells := (cells (front_buffer ?s2))[?k := ?b]\<rparr>\<rparr>"
    have "present_cell y x s = Inr ?s'"
      using k False by (simp add: present_cell_def Let_def bi fi cell_read_def)
    then show ?thesis
      by (intro exI[of _ ?s'])
        (simp add: same_shape_def send_char_frame send_attr_frame)
  qed
qed

text \<open>Where the two cells differ, what \<open>tb_present\<close> writes for the position is what
  \<open>send_attr\<close> and then \<open>send_char\<close> write for the back cell.\<close>

lemma present_cell_emits:
  assumes ok: "session_ok s"
    and x: "x < unat (width (back_buffer s))" and y: "y < unat (height (back_buffer s))"
    and diff: "cells (back_buffer s) ! (y * unat (width (back_buffer s)) + x) \<noteq>
               cells (front_buffer s) ! (y * unat (width (back_buffer s)) + x)"
  shows "\<exists>s'. present_cell y x s = Inr s' \<and>
           tty_log s' =
             tty_log (send_char (of_nat x) (of_nat y)
                        (ch (cells (back_buffer s) ! (y * unat (width (back_buffer s)) + x)))
                        (send_attr
                           (fg (cells (back_buffer s) ! (y * unat (width (back_buffer s)) + x)))
                           (bg (cells (back_buffer s) ! (y * unat (width (back_buffer s)) + x)))
                           s))"
proof -
  let ?W = "unat (width (back_buffer s))" and ?H = "unat (height (back_buffer s))"
  let ?k = "y * ?W + x"
  note d = session_okD[OF ok]
  have bi: "CELL (back_buffer s) (of_nat x) (of_nat y) = ?k"
    unfolding CELL_def by (rule cell_index_u32[OF y x d(9)])
  have fi: "CELL (front_buffer s) (of_nat x) (of_nat y) = ?k"
    unfolding CELL_def d(3) by (rule cell_index_u32[OF y x d(9)])
  have "?k < ?k - x + ?W" using x by simp
  also have "\<dots> \<le> ?W * ?H" using row_end_le[OF y, of ?W ?W] by simp
  finally have k: "?k < length (cells (back_buffer s))" "?k < length (cells (front_buffer s))"
    using d(7,8) by simp_all
  show ?thesis
    using k diff by (simp add: present_cell_def Let_def bi fi cell_read_def)
qed

text \<open>One row: afterwards the front cells of the row are the back cells.\<close>

lemma present_row_step:
  assumes ok: "session_ok s" and y: "y < unat (height (back_buffer s))"
  shows "\<exists>s'. present_row y s = Inr s' \<and> same_shape s s' \<and>
           (\<forall>k < length (cells (front_buffer s)).
              cells (front_buffer s') ! k =
                (if y * unat (width (back_buffer s)) \<le> k \<and>
                    k < y * unat (width (back_buffer s)) + unat (width (back_buffer s))
                 then cells (back_buffer s) ! k else cells (front_buffer s) ! k))"
proof -
  let ?W = "unat (width (back_buffer s))"
  let ?B = "cells (back_buffer s)" and ?F = "cells (front_buffer s)"
  let ?Q = "\<lambda>x t. same_shape s t \<and>
              (\<forall>k < length ?F. cells (front_buffer t) ! k =
                 (if y * ?W \<le> k \<and> k < y * ?W + x then ?B ! k else ?F ! k))"
  note d = session_okD[OF ok]
  have "\<exists>t. for_each [0..<?W] (present_cell y) s = Inr t \<and> ?Q ?W t"
  proof (rule for_each_upt_inv[where Q = ?Q])
    show "?Q 0 s" by (auto simp: same_shape_refl)
    show "0 \<le> ?W" by simp
  next
    fix x t
    assume x: "x < ?W" and Q: "?Q x t"
    then have sh: "same_shape s t" by simp
    have okt: "session_ok t" by (rule same_shape_ok[OF ok sh])
    have bt: "back_buffer t = back_buffer s" using sh by (simp add: same_shape_def)
    from present_cell_step[OF okt, of x y] x y bt obtain t' where
      t': "present_cell y x t = Inr t'" "same_shape t t'"
        "cells (front_buffer t') = (cells (front_buffer t))[y * ?W + x := ?B ! (y * ?W + x)]"
      by auto
    have lt: "length (cells (front_buffer t)) = length ?F" using sh by (simp add: same_shape_def)
    have "cells (front_buffer t') ! k =
            (if y * ?W \<le> k \<and> k < y * ?W + Suc x then ?B ! k else ?F ! k)"
      if k: "k < length ?F" for k
    proof (cases "k = y * ?W + x")
      case True
      then show ?thesis using k lt t'(3) by simp
    next
      case False
      then have "cells (front_buffer t') ! k = cells (front_buffer t) ! k"
        using t'(3) by simp
      then show ?thesis using Q k False by auto
    qed
    then show "\<exists>t'. present_cell y x t = Inr t' \<and> ?Q (Suc x) t'"
      using t' same_shape_trans[OF sh t'(2)] by blast
  qed
  then show ?thesis by (simp add: present_row_def d(3))
qed

text \<open>All rows: afterwards the front buffer is the back buffer.\<close>

lemma present_rows:
  assumes ok: "session_ok s"
  shows "\<exists>s'. for_each [0..<unat (height (front_buffer s))] present_row s = Inr s' \<and>
           back_buffer s' = back_buffer s \<and> front_buffer s' = back_buffer s"
proof -
  let ?W = "unat (width (back_buffer s))" and ?H = "unat (height (back_buffer s))"
  let ?B = "cells (back_buffer s)" and ?F = "cells (front_buffer s)"
  let ?Q = "\<lambda>y t. same_shape s t \<and>
              (\<forall>k < length ?F. cells (front_buffer t) ! k =
                 (if k < y * ?W then ?B ! k else ?F ! k))"
  note d = session_okD[OF ok]
  have "\<exists>t. for_each [0..<?H] present_row s = Inr t \<and> ?Q ?H t"
  proof (rule for_each_upt_inv[where Q = ?Q])
    show "?Q 0 s" by (simp add: same_shape_refl)
    show "0 \<le> ?H" by simp
  next
    fix y t
    assume y: "y < ?H" and Q: "?Q y t"
    then have sh: "same_shape s t" by simp
    have okt: "session_ok t" by (rule same_shape_ok[OF ok sh])
    have bt: "back_buffer t = back_buffer s" using sh by (simp add: same_shape_def)
    have lt: "length (cells (front_buffer t)) = length ?F" using sh by (simp add: same_shape_def)
    from present_row_step[OF okt, of y] y bt lt obtain t' where
      t': "present_row y t = Inr t'" "same_shape t t'"
        "\<forall>k < length ?F. cells (front_buffer t') ! k =
           (if y * ?W \<le> k \<and> k < y * ?W + ?W then ?B ! k else cells (front_buffer t) ! k)"
      by auto
    have "cells (front_buffer t') ! k = (if k < Suc y * ?W then ?B ! k else ?F ! k)"
      if k: "k < length ?F" for k
      using t'(3) Q k by auto
    then show "\<exists>t'. present_row y t = Inr t' \<and> ?Q (Suc y) t'"
      using t' same_shape_trans[OF sh t'(2)] by blast
  qed
  then obtain t where
    t: "for_each [0..<?H] present_row s = Inr t" "same_shape s t"
      "\<forall>k < length ?F. cells (front_buffer t) ! k = (if k < ?H * ?W then ?B ! k else ?F ! k)"
    by blast
  have len: "length (cells (front_buffer t)) = length ?B"
    using t(2) d(7,8) by (simp add: same_shape_def)
  have "cells (front_buffer t) = ?B"
  proof (rule nth_equalityI[OF len])
    fix k assume "k < length (cells (front_buffer t))"
    then show "cells (front_buffer t) ! k = ?B ! k"
      using t(3) len d(7,8) by (simp add: mult.commute)
  qed
  then have "front_buffer t = back_buffer s"
    using t(2) d(3,4) by (intro cellbuf.equality) (simp_all add: same_shape_def)
  then show ?thesis using t(1,2) by (simp add: same_shape_def d(4))
qed

lemma tb_present_idle:
  assumes "session_ok s" and "sigwinch_r s = 0"
  shows "\<exists>s'. tb_present sy s = Inr s' \<and>
           back_buffer s' = back_buffer s \<and> front_buffer s' = back_buffer s"
proof -
  from present_rows[OF assms(1)] obtain t where
    "for_each [0..<unat (height (front_buffer s))] present_row s = Inr t"
    "back_buffer t = back_buffer s" "front_buffer t = back_buffer s" by blast
  then show ?thesis
    using assms(2) by (simp add: tb_present_def check_sigwinch_idle emit_def)
qed


text \<open>\<open>tb_init\<close> establishes the session invariant.\<close>

lemma tb_init_establishes:
  assumes "fopen_w sy = Some fo" and "fopen_r sy = Some fi" and "\<not> init_term sy < 0"
    and "malloc_back sy = Some jb" and "malloc_front sy = Some jf"
  shows "\<exists>s'. tb_init T sy s = Inr (0, s') \<and> session_ok s'"
proof -
  obtain c r where cr: "ioctl_winsize sy = (c, r)" by (cases "ioctl_winsize sy")
  let ?w = "ucast c :: u32" and ?h = "ucast r :: u32"
  have n: "malloc_cells ?w ?h = unat ?w * unat ?h" by (rule malloc_cells_eq[OF winsize_fits])
  have ok: "cellbuf_ok (b\<lparr>cells := map j [0..<unat ?w * unat ?h], width := ?w, height := ?h\<rparr>)"
    for b j using winsize_fits[of c r] by (simp add: cellbuf_ok_def)
  have small: "unat ?w < 2 ^ 16" "unat ?h < 2 ^ 16"
    using unat_u16_bound[of c] unat_u16_bound[of r] by (simp_all add: unat_ucast16)
  show ?thesis
    using assms cellbuf_clear_eq[OF ok] winsize_fits[of c r] small
    by (simp add: tb_init_def tb_init_session_def Let_def update_term_size_def cr emit_def
        cellbuf_init_def n session_ok_def cellbuf_ok_def)
qed

text \<open>With a resize pending, \<open>tb_present\<close> reconciles first and still ends with equal
  buffers.\<close>

lemma tb_present_any:
  assumes ok: "session_ok s"
    and mb: "malloc_back sy = Some jb" and mf: "malloc_front sy = Some jf"
  shows "\<exists>s'. tb_present sy s = Inr s' \<and> front_buffer s' = back_buffer s'"
proof -
  from check_sigwinch_keeps_ok[OF assms] obtain s1 where
    s1: "check_sigwinch sy s = Inr s1" "session_ok s1" by blast
  from present_rows[OF s1(2)] obtain t where
    "for_each [0..<unat (height (front_buffer s1))] present_row s1 = Inr t"
    "back_buffer t = back_buffer s1" "front_buffer t = back_buffer s1" by blast
  then show ?thesis using s1(1) by (simp add: tb_present_def emit_def)
qed

text \<open>
  Claim C1. On a well-formed session with no resize pending, every sequence of
  \<open>tb_put_cell\<close>, \<open>tb_change_cell\<close> and \<open>tb_blit\<close> calls within bounds followed by one
  \<open>tb_present\<close> returns, and afterwards the front buffer equals the back buffer, which
  is the back buffer the writes left.
\<close>

theorem writes_then_present_equal:
  assumes "session_ok s" and "sigwinch_r s = 0"
    and "\<forall>op \<in> set ops. in_bounds (back_buffer s) op"
  shows "\<exists>s1 s'. run_writes ops s = Inr s1 \<and> writes_then_present sy ops s = Inr s' \<and>
           back_buffer s' = back_buffer s1 \<and> front_buffer s' = back_buffer s'"
proof -
  from run_writes_in_bounds[OF assms(1,3)] obtain cs where
    w: "run_writes ops s = Inr (s\<lparr>back_buffer := (back_buffer s)\<lparr>cells := cs\<rparr>\<rparr>)"
    and len: "length cs = length (cells (back_buffer s))" by blast
  let ?s1 = "s\<lparr>back_buffer := (back_buffer s)\<lparr>cells := cs\<rparr>\<rparr>"
  have ok1: "session_ok ?s1" by (rule session_ok_back_cells[OF assms(1) len])
  have idle: "sigwinch_r ?s1 = 0" using assms(2) by simp
  from tb_present_idle[OF ok1 idle, of sy] obtain s' where
    "tb_present sy ?s1 = Inr s'" "back_buffer s' = back_buffer ?s1"
    "front_buffer s' = back_buffer ?s1" by blast
  then show ?thesis using w by (simp add: writes_then_present_def)
qed

lemma ex_session32_ok: "session_ok ex_session32"
  by (simp add: session_ok_def cellbuf_ok_def ex_session32_def ex_buf32_def)

lemma ex_writes_in_bounds: "\<forall>op \<in> set ex_writes. in_bounds (back_buffer ex_session32) op"
  by (simp add: ex_writes_def ex_session32_def ex_buf32_def)

lemma ex_writes_eval:
  "run_writes ex_writes ex_session32 =
     Inr (ex_session32\<lparr>back_buffer := ex_buf32
            \<lparr>cells := [ex_cell 0x5A, ex_cell 0x5A, ex_cell 0x43,
                       ex_cell 0x59, ex_cell 0x45, ex_cell 0x58]\<rparr>\<rparr>)"
  by (simp add: ex_writes_def ex_session32_def ex_buf32_def tb_put_cell_def tb_change_cell_def
      tb_blit_def CELL_def cell_write_def memcpy_cells_def ex_cell_def word_le_nat_alt)

theorem writes_then_present_equal_witness:
  "session_ok ex_session32 \<and> sigwinch_r ex_session32 = 0 \<and>
   in_bounds (back_buffer ex_session32) (Put_cell 2 1 (ex_cell 0x58)) \<and>
   in_bounds (back_buffer ex_session32) (Change_cell 0 1 0x59 TB_WHITE TB_BLACK) \<and>
   in_bounds (back_buffer ex_session32) (Blit 0 0 2 1 [ex_cell 0x5A, ex_cell 0x5A]) \<and>
   map_option back_buffer (returned (writes_then_present ex_sys ex_writes ex_session32)) =
     Some (ex_buf32\<lparr>cells := [ex_cell 0x5A, ex_cell 0x5A, ex_cell 0x43,
                              ex_cell 0x59, ex_cell 0x45, ex_cell 0x58]\<rparr>) \<and>
   map_option front_buffer (returned (writes_then_present ex_sys ex_writes ex_session32)) =
     Some (ex_buf32\<lparr>cells := [ex_cell 0x5A, ex_cell 0x5A, ex_cell 0x43,
                              ex_cell 0x59, ex_cell 0x45, ex_cell 0x58]\<rparr>)"
proof -
  have idle: "sigwinch_r ex_session32 = 0" by (simp add: ex_session32_def ex_session_def)
  from writes_then_present_equal[OF ex_session32_ok idle ex_writes_in_bounds, of ex_sys]
  obtain s1 s' where
    a: "run_writes ex_writes ex_session32 = Inr s1"
      "writes_then_present ex_sys ex_writes ex_session32 = Inr s'"
      "back_buffer s' = back_buffer s1" "front_buffer s' = back_buffer s'" by blast
  from a(1) have "back_buffer s1 =
      ex_buf32\<lparr>cells := [ex_cell 0x5A, ex_cell 0x5A, ex_cell 0x43,
                         ex_cell 0x59, ex_cell 0x45, ex_cell 0x58]\<rparr>"
    by (auto simp: ex_writes_eval)
  then show ?thesis
    using a ex_session32_ok idle ex_writes_in_bounds
    by (simp add: returned_def ex_writes_def)
qed

section \<open>\<open>tb_blit\<close> at the edges\<close>

text \<open>
  Claim C2. A blit of the whole 3-by-2 screen fits the back buffer (\<open>x + w = width\<close>,
  \<open>y + h = height\<close>), and \<open>tb_blit\<close> drops it: the guard is \<open>x + w >= width\<close>.
\<close>

theorem tb_blit_exact_fit_dropped:
  "unat (0::u32) + unat (3::u32) \<le> unat (width (back_buffer ex_session32)) \<and>
   unat (0::u32) + unat (2::u32) \<le> unat (height (back_buffer ex_session32)) \<and>
   tb_blit 0 0 3 2
     [ex_cell 0x61, ex_cell 0x62, ex_cell 0x63, ex_cell 0x64, ex_cell 0x65, ex_cell 0x66]
     ex_session32 = Inr ex_session32"
  by (simp add: tb_blit_def ex_session32_def ex_buf32_def)

text \<open>A rectangle that starts at column \<open>2 ^ 32 - 1\<close> does not fit, yet the unsigned
  sum \<open>x + w\<close> wraps to \<open>0\<close>, the guard lets it pass and the copy leaves the block.\<close>

lemma tb_blit_wraparound:
  "tb_blit 0xFFFFFFFF 0 1 1 [ex_cell 0x5A] ex_session32 = Inl UndefinedBehaviour"
  by (simp add: tb_blit_def ex_session32_def ex_buf32_def CELL_def memcpy_cells_def
      word_le_nat_alt)


section \<open>UTF-8: the encoder against the reference decoder\<close>


lemma nat_lt8: "(k::nat) < 8 \<longleftrightarrow> k \<in> {0, 1, 2, 3, 4, 5, 6, 7}"
  by auto

lemma cont_marker: "(ucast (((x::u32) AND 0x3f) OR 0x80) :: u8) AND 0xc0 = 0x80"
  apply (rule bit_word_eqI)
  apply (simp add: nat_lt8)
  apply (elim disjE)
  apply (simp_all add: bit_simps)
  done

lemma mask6: "(x::u32) AND 0x3f = take_bit 6 x"
  by (simp add: take_bit_eq_mask mask_eq_exp_minus_1)

lemma cont_payload: "(ucast ((ucast (((x::u32) AND 0x3f) OR 0x80) :: u8) AND 0x3f) :: u32) = take_bit 6 x"
  apply (rule bit_word_eqI)
  apply (simp add: bit_simps)
  apply (case_tac "n < 8")
   apply (simp add: nat_lt8)
   apply (elim disjE)
  apply (simp_all add: bit_simps)
  done

lemma join6: "push_bit 6 (push_bit (6 * i) a OR take_bit (6 * i) (drop_bit 6 c)) OR take_bit 6 c
   = push_bit (6 * Suc i) a OR take_bit (6 * Suc i) (c::u32)"
  apply (rule bit_word_eqI)
  apply (auto simp add: bit_simps)
  done

lemma cont_roundtrip:
  "utf8_cont_bytes n c acc = (c', bs) \<Longrightarrow>
   \<exists>pre. bs = pre @ acc \<and> length pre = n \<and> c' = drop_bit (6 * n) c \<and>
     (\<forall>a rest. utf8_ref_cont a (pre @ rest) =
        utf8_ref_cont (push_bit (6 * n) a OR take_bit (6 * n) c) rest)"
proof (induction n arbitrary: c acc)
  case 0
  then show ?case by simp
next
  case (Suc n)
  let ?b = "ucast ((c AND 0x3f) OR 0x80) :: u8"
  from Suc.prems have "utf8_cont_bytes n (drop_bit 6 c) (?b # acc) = (c', bs)" by simp
  from Suc.IH[OF this] obtain pre where
    pre: "bs = pre @ ?b # acc" "length pre = n" "c' = drop_bit (6 * n) (drop_bit 6 c)"
    and dec: "\<And>a rest. utf8_ref_cont a (pre @ rest) =
        utf8_ref_cont (push_bit (6 * n) a OR take_bit (6 * n) (drop_bit 6 c)) rest"
    by blast
  have "utf8_ref_cont a ((pre @ [?b]) @ rest) =
        utf8_ref_cont (push_bit (6 * Suc n) a OR take_bit (6 * Suc n) c) rest" for a rest
    using dec[of a "?b # rest"] cont_marker[of c] cont_payload[of c] join6[of n a c]
    by simp
  moreover have "bs = (pre @ [?b]) @ acc" using pre by simp
  moreover have "length (pre @ [?b]) = Suc n" using pre by simp
  moreover have "c' = drop_bit (6 * Suc n) c" using pre by (simp add: add.commute)
  ultimately show ?case by blast
qed


lemma and_and_num: "(b::u8) AND m = v \<Longrightarrow> b AND (m AND m') = v AND m'"
  by (simp add: and.assoc[symmetric])

lemma lead_marker_1: "(ucast (take_bit 7 (x::u32) OR 0x0) :: u8) AND 0x80 = 0x0"
  apply (rule bit_word_eqI)
  apply (simp add: nat_lt8)
  apply (elim disjE)
  apply (simp_all add: bit_simps)
  done

lemma lead_payload_1: "(ucast ((ucast (take_bit 7 (x::u32) OR 0x0) :: u8) AND 0x7f) :: u32) = take_bit 7 x"
  apply (rule bit_word_eqI)
  apply (simp add: bit_simps)
  apply (case_tac "n < 8")
   apply (simp add: nat_lt8)
   apply (elim disjE)
  apply (simp_all add: bit_simps)
  done

lemma lead_length_1: "utf8_ref_length (ucast (take_bit 7 (x::u32) OR 0x0)) = Some 1"
  using lead_marker_1[of x] 
  by (simp add: utf8_ref_length_def)

lemma lead_marker_2: "(ucast (take_bit 5 (x::u32) OR 0xc0) :: u8) AND 0xe0 = 0xc0"
  apply (rule bit_word_eqI)
  apply (simp add: nat_lt8)
  apply (elim disjE)
  apply (simp_all add: bit_simps)
  done

lemma lead_payload_2: "(ucast ((ucast (take_bit 5 (x::u32) OR 0xc0) :: u8) AND 0x1f) :: u32) = take_bit 5 x"
  apply (rule bit_word_eqI)
  apply (simp add: bit_simps)
  apply (case_tac "n < 8")
   apply (simp add: nat_lt8)
   apply (elim disjE)
  apply (simp_all add: bit_simps)
  done

lemma lead_length_2: "utf8_ref_length (ucast (take_bit 5 (x::u32) OR 0xc0)) = Some 2"
  using lead_marker_2[of x] and_and_num[OF lead_marker_2[of x], of "0x80"]
  by (simp add: utf8_ref_length_def)

lemma lead_marker_3: "(ucast (take_bit 4 (x::u32) OR 0xe0) :: u8) AND 0xf0 = 0xe0"
  apply (rule bit_word_eqI)
  apply (simp add: nat_lt8)
  apply (elim disjE)
  apply (simp_all add: bit_simps)
  done

lemma lead_payload_3: "(ucast ((ucast (take_bit 4 (x::u32) OR 0xe0) :: u8) AND 0xf) :: u32) = take_bit 4 x"
  apply (rule bit_word_eqI)
  apply (simp add: bit_simps)
  apply (case_tac "n < 8")
   apply (simp add: nat_lt8)
   apply (elim disjE)
  apply (simp_all add: bit_simps)
  done

lemma lead_length_3: "utf8_ref_length (ucast (take_bit 4 (x::u32) OR 0xe0)) = Some 3"
  using lead_marker_3[of x] and_and_num[OF lead_marker_3[of x], of "0x80"] and_and_num[OF lead_marker_3[of x], of "0xe0"]
  by (simp add: utf8_ref_length_def)

lemma lead_marker_4: "(ucast (take_bit 3 (x::u32) OR 0xf0) :: u8) AND 0xf8 = 0xf0"
  apply (rule bit_word_eqI)
  apply (simp add: nat_lt8)
  apply (elim disjE)
  apply (simp_all add: bit_simps)
  done

lemma lead_payload_4: "(ucast ((ucast (take_bit 3 (x::u32) OR 0xf0) :: u8) AND 0x7) :: u32) = take_bit 3 x"
  apply (rule bit_word_eqI)
  apply (simp add: bit_simps)
  apply (case_tac "n < 8")
   apply (simp add: nat_lt8)
   apply (elim disjE)
  apply (simp_all add: bit_simps)
  done

lemma lead_length_4: "utf8_ref_length (ucast (take_bit 3 (x::u32) OR 0xf0)) = Some 4"
  using lead_marker_4[of x] and_and_num[OF lead_marker_4[of x], of "0x80"] and_and_num[OF lead_marker_4[of x], of "0xe0"] and_and_num[OF lead_marker_4[of x], of "0xf0"]
  by (simp add: utf8_ref_length_def)

lemma lead_marker_5: "(ucast (take_bit 2 (x::u32) OR 0xf8) :: u8) AND 0xfc = 0xf8"
  apply (rule bit_word_eqI)
  apply (simp add: nat_lt8)
  apply (elim disjE)
  apply (simp_all add: bit_simps)
  done

lemma lead_payload_5: "(ucast ((ucast (take_bit 2 (x::u32) OR 0xf8) :: u8) AND 0x3) :: u32) = take_bit 2 x"
  apply (rule bit_word_eqI)
  apply (simp add: bit_simps)
  apply (case_tac "n < 8")
   apply (simp add: nat_lt8)
   apply (elim disjE)
  apply (simp_all add: bit_simps)
  done

lemma lead_length_5: "utf8_ref_length (ucast (take_bit 2 (x::u32) OR 0xf8)) = Some 5"
  using lead_marker_5[of x] and_and_num[OF lead_marker_5[of x], of "0x80"] and_and_num[OF lead_marker_5[of x], of "0xe0"] and_and_num[OF lead_marker_5[of x], of "0xf0"] and_and_num[OF lead_marker_5[of x], of "0xf8"]
  by (simp add: utf8_ref_length_def)

lemma lead_marker_6: "(ucast (take_bit 1 (x::u32) OR 0xfc) :: u8) AND 0xfe = 0xfc"
  apply (rule bit_word_eqI)
  apply (simp add: nat_lt8)
  apply (elim disjE)
  apply (simp_all add: bit_simps)
  done

lemma lead_payload_6: "(ucast ((ucast (take_bit 1 (x::u32) OR 0xfc) :: u8) AND 0x1) :: u32) = take_bit 1 x"
  apply (rule bit_word_eqI)
  apply (simp add: bit_simps)
  apply (case_tac "n < 8")
   apply (simp add: nat_lt8)
   apply (elim disjE)
  apply (simp_all add: bit_simps)
  done

lemma lead_length_6: "utf8_ref_length (ucast (take_bit 1 (x::u32) OR 0xfc)) = Some 6"
  using lead_marker_6[of x] and_and_num[OF lead_marker_6[of x], of "0x80"] and_and_num[OF lead_marker_6[of x], of "0xe0"] and_and_num[OF lead_marker_6[of x], of "0xf0"] and_and_num[OF lead_marker_6[of x], of "0xf8"] and_and_num[OF lead_marker_6[of x], of "0xfc"]
  by (simp add: utf8_ref_length_def)


lemma split_join: "push_bit m (take_bit k (drop_bit m c)) OR take_bit m c = take_bit (m + k) (c::u32)"
  apply (rule bit_word_eqI)
  apply (auto simp add: bit_simps)
  done

lemma roundtrip_case:
  assumes fl: "utf8_first_len c = (first, Suc n)"
    and bound: "take_bit (6 * n + k) c = c"
    and len: "\<And>x. utf8_ref_length (ucast (take_bit k x OR first)) = Some (Suc n)"
    and pay: "\<And>x. ucast ((ucast (take_bit k x OR first) :: u8) AND utf8_ref_lead_mask (Suc n)) = take_bit k x"
  shows "utf8_ref_decode (utf8_unicode_to_char c) = Some c"
proof -
  obtain c' bs where cb: "utf8_cont_bytes n c [] = (c', bs)"
    by (cases "utf8_cont_bytes n c []")
  from cont_roundtrip[OF cb] obtain pre where
    pre: "bs = pre" "length pre = n" "c' = drop_bit (6 * n) c"
    and dec: "\<And>a rest. utf8_ref_cont a (pre @ rest) =
        utf8_ref_cont (push_bit (6 * n) a OR take_bit (6 * n) c) rest"
    by auto
  have "c' = drop_bit (6 * n) (take_bit (6 * n + k) c)"
    using pre bound by simp
  then have c': "c' = take_bit k (drop_bit (6 * n) c)"
    by (simp add: drop_bit_take_bit)
  have enc: "utf8_unicode_to_char c = ucast (take_bit k (drop_bit (6 * n) c) OR first) # pre"
    using fl cb pre c' by (simp add: utf8_unicode_to_char_def)
  have "utf8_ref_decode (utf8_unicode_to_char c) =
        utf8_ref_cont (take_bit k (drop_bit (6 * n) c)) (pre @ [])"
    using pre by (simp add: enc utf8_ref_decode_def len pay)
  also have "\<dots> = Some (push_bit (6 * n) (take_bit k (drop_bit (6 * n) c)) OR take_bit (6 * n) c)"
    by (simp only: dec utf8_ref_cont.simps)
  also have "\<dots> = Some c"
    by (simp only: split_join bound)
  finally show ?thesis .
qed

lemma lt_take: "(c::u32) < 2 ^ n \<Longrightarrow> take_bit n c = c"
  by (simp add: less_mask_eq take_bit_eq_mask)

lemma lead_mask_simps:
  "utf8_ref_lead_mask (Suc 0) = 0x7f" "utf8_ref_lead_mask (Suc (Suc 0)) = 0x1f"
  "utf8_ref_lead_mask 2 = 0x1f" "utf8_ref_lead_mask 3 = 0x0f"
  "utf8_ref_lead_mask 4 = 0x07" "utf8_ref_lead_mask 5 = 0x03" "utf8_ref_lead_mask 6 = 0x01"
  by (simp_all add: utf8_ref_lead_mask_def)

lemma utf8_roundtrip_all:
  assumes "c < 0x80000000"
  shows "utf8_ref_decode (utf8_unicode_to_char c) = Some c"
proof -
  consider "c < 0x80"
    | "\<not> c < 0x80" "c < 0x800"
    | "\<not> c < 0x80" "\<not> c < 0x800" "c < 0x10000"
    | "\<not> c < 0x80" "\<not> c < 0x800" "\<not> c < 0x10000" "c < 0x200000"
    | "\<not> c < 0x80" "\<not> c < 0x800" "\<not> c < 0x10000" "\<not> c < 0x200000" "c < 0x4000000"
    | "\<not> c < 0x80" "\<not> c < 0x800" "\<not> c < 0x10000" "\<not> c < 0x200000" "\<not> c < 0x4000000"
    by blast
  then show ?thesis
  proof cases
    case 1
    then have fl: "utf8_first_len c = (0, Suc 0)"
      by (simp add: utf8_first_len_def)
    have bd: "take_bit (6 * 0 + 7) c = c"
      using 1 lt_take[of c 7] by simp
    show ?thesis
      apply (rule roundtrip_case[where k = 7, OF fl bd])
      using lead_length_1 lead_payload_1 apply (simp_all add: lead_mask_simps)
      done
  next
    case 2
    then have fl: "utf8_first_len c = (0xc0, Suc 1)"
      by (simp add: utf8_first_len_def)
    have bd: "take_bit (6 * 1 + 5) c = c"
      using 2 lt_take[of c 11] by simp
    show ?thesis
      apply (rule roundtrip_case[where k = 5, OF fl bd])
      using lead_length_2 lead_payload_2 apply (simp_all add: lead_mask_simps)
      done
  next
    case 3
    then have fl: "utf8_first_len c = (0xe0, Suc 2)"
      by (simp add: utf8_first_len_def)
    have bd: "take_bit (6 * 2 + 4) c = c"
      using 3 lt_take[of c 16] by simp
    show ?thesis
      apply (rule roundtrip_case[where k = 4, OF fl bd])
      using lead_length_3 lead_payload_3 apply (simp_all add: lead_mask_simps)
      done
  next
    case 4
    then have fl: "utf8_first_len c = (0xf0, Suc 3)"
      by (simp add: utf8_first_len_def)
    have bd: "take_bit (6 * 3 + 3) c = c"
      using 4 lt_take[of c 21] by simp
    show ?thesis
      apply (rule roundtrip_case[where k = 3, OF fl bd])
      using lead_length_4 lead_payload_4 apply (simp_all add: lead_mask_simps)
      done
  next
    case 5
    then have fl: "utf8_first_len c = (0xf8, Suc 4)"
      by (simp add: utf8_first_len_def)
    have bd: "take_bit (6 * 4 + 2) c = c"
      using 5 lt_take[of c 26] by simp
    show ?thesis
      apply (rule roundtrip_case[where k = 2, OF fl bd])
      using lead_length_5 lead_payload_5 apply (simp_all add: lead_mask_simps)
      done
  next
    case 6
    then have fl: "utf8_first_len c = (0xfc, Suc 5)"
      by (simp add: utf8_first_len_def)
    have bd: "take_bit (6 * 5 + 1) c = c"
      using assms lt_take[of c 31] by simp
    show ?thesis
      apply (rule roundtrip_case[where k = 1, OF fl bd])
      using lead_length_6 lead_payload_6 apply (simp_all add: lead_mask_simps)
      done
  qed
qed

text \<open>
  Claim C9. For every scalar \<open>c\<close> up to \<open>0x10FFFF\<close> outside the surrogate range
  \<open>0xD800 .. 0xDFFF\<close>, decoding the bytes that \<open>utf8_unicode_to_char\<close> produces, by the
  classical UTF-8 rules, gives \<open>c\<close> back.
\<close>

theorem utf8_roundtrip:
  assumes "c \<le> 0x10FFFF" and "\<not> (0xD800 \<le> c \<and> c \<le> 0xDFFF)"
  shows "utf8_ref_decode (utf8_unicode_to_char c) = Some c"
proof -
  have "c < 0x80000000" using assms(1) by (rule le_less_trans) simp
  then show ?thesis by (rule utf8_roundtrip_all)
qed


theorem utf8_roundtrip_witness:
  "(0x2603::u32) \<le> 0x10FFFF \<and> \<not> (0xD800 \<le> (0x2603::u32) \<and> (0x2603::u32) \<le> 0xDFFF) \<and>
   utf8_unicode_to_char 0x2603 = [0xE2, 0x98, 0x83] \<and>
   utf8_ref_decode [0xE2, 0x98, 0x83] = Some 0x2603"
proof -
  have h1: "(0x2603::u32) \<le> 0x10FFFF" by simp
  have h2: "\<not> (0xD800 \<le> (0x2603::u32) \<and> (0x2603::u32) \<le> 0xDFFF)" by simp
  have enc: "utf8_unicode_to_char 0x2603 = [0xE2, 0x98, 0x83]" by code_simp
  from utf8_roundtrip[OF h1 h2] show ?thesis using h1 h2 enc by simp
qed

end
